theory Spec2Isabelle
  imports Complex_Main "HOL-Library.Word" "HOL-Library.Monad_Syntax" "HOL-Library.Log_Nat"
begin

unbundle bit_operations_syntax

section \<open>Data model\<close>

text \<open>
  Go's \<open>byte\<close> is an 8-bit word. Go's \<open>uint\<close> is taken at its 64-bit width; the
  accumulator never holds more than 21 bits, so nothing below depends on the width
  beyond 32. Slice lengths, the write index \<open>n\<close> and the read index \<open>i\<close> are
  natural numbers: they are bounded by the length of a slice and never overflow.
  The local \<open>v\<close> of \<open>Decode\<close> is a Go \<open>int\<close> with the sentinel \<open>-1\<close>; its
  values stay below \<open>255 + 255 * 91\<close>, so it is an \<open>int\<close> here.
\<close>

type_synonym byte = "8 word"
type_synonym go_uint = "64 word"

text \<open>
  \<open>type Encoding struct { encode [91]byte; decodeMap [256]byte }\<close>.
  \<open>decodeMap\<close> is only ever indexed by a byte, and it has one entry for each byte:
  it is a total function on bytes. \<open>encode\<close> is indexed by computed values, so it is a
  list and every read of it is checked against its length.
\<close>

record Encoding =
  encode :: "byte list"
  decodeMap :: "byte \<Rightarrow> byte"

text \<open>The panics raised by \<open>NewEncoding\<close>, with their messages.\<close>

datatype panic = Panic string

text \<open>\<open>type CorruptInputError int64\<close>: the index of the offending input byte.\<close>

datatype error = CorruptInputError int

section \<open>Alphabet construction\<close>

text \<open>
  The 91-byte string constant \<open>encodeStd\<close>; its last byte is the double quote
  \<open>0x22\<close>.
\<close>

definition encodeStd :: "byte list" where
  "encodeStd =
     map of_char ''ABCDEFGHIJKLMNOPQRSTUVWXYZabcdefghijklmnopqrstuvwxyz0123456789!#$%&()*+,./:;<=>?@[]^_`{|}~''
     @ [0x22]"

text \<open>
  Go's built-in \<open>copy(dst, src)\<close>: the first \<open>min (len dst) (len src)\<close> elements
  of \<open>dst\<close> are overwritten.
\<close>

definition copy :: "byte list \<Rightarrow> byte list \<Rightarrow> byte list" where
  "copy dst src =
     take (min (length dst) (length src)) src @ drop (min (length dst) (length src)) dst"

text \<open>
  \<open>NewEncoding\<close>: the length check, the scan for line feed and carriage return, the
  copy into \<open>encode\<close>, the fill of \<open>decodeMap\<close> with \<open>0xff\<close> and the loop
  \<open>e.decodeMap[encoder[i]] = byte(i)\<close> for \<open>i = 0, ..., len(encoder) - 1\<close> in this
  order, so that a later index overwrites an earlier one.
\<close>

definition NewEncoding :: "byte list \<Rightarrow> panic + Encoding" where
  "NewEncoding encoder =
     (if length encoder \<noteq> 91 then Inl (Panic ''encoding alphabet is not 91 bytes long'')
      else if \<exists>c \<in> set encoder. c = 0x0A \<or> c = 0x0D
        then Inl (Panic ''encoding alphabet contains newline character'')
      else Inr \<lparr> encode = copy (replicate 91 0) encoder,
                 decodeMap = fold (\<lambda>i m. m(encoder ! i := of_nat i))
                                  [0 ..< length encoder] (\<lambda>_. 0xff) \<rparr>)"

definition StdEncoding :: "panic + Encoding" where
  "StdEncoding = NewEncoding encodeStd"

section \<open>Buffers\<close>

text \<open>
  A run-time panic of \<open>Encode\<close> or \<open>Decode\<close> (an index out of range) is the value
  \<open>None\<close>. \<open>put dst n c\<close> is the assignment \<open>dst[n] = c\<close>, and
  \<open>encode_at enc i\<close> is the read \<open>enc.encode[i]\<close>.
\<close>

definition put :: "byte list \<Rightarrow> nat \<Rightarrow> byte \<Rightarrow> byte list option" where
  "put dst n c = (if n < length dst then Some (dst[n := c]) else None)"

definition encode_at :: "Encoding \<Rightarrow> go_uint \<Rightarrow> byte option" where
  "encode_at enc i = (if unat i < length (encode enc) then Some (encode enc ! unat i) else None)"

section \<open>Encoder\<close>

text \<open>
  The arithmetic of one iteration of the loop of \<open>Encode\<close>: the byte is merged into the
  queue, and when more than 13 bits are pending, a value \<open>v\<close> of 13 or 14 bits is taken
  off. The result is the new queue, the new bit count and the value taken, if any.
\<close>

definition enc_step :: "go_uint \<Rightarrow> go_uint \<Rightarrow> byte \<Rightarrow> go_uint \<times> go_uint \<times> go_uint option" where
  "enc_step queue numBits b =
     (let queue = queue OR push_bit (unat numBits) (ucast b);
          numBits = numBits + 8
      in if numBits > 13 then
           (let v = queue AND 8191
            in if v > 88 then (drop_bit 13 queue, numBits - 13, Some v)
               else (drop_bit 14 queue, numBits - 14, Some (queue AND 16383)))
         else (queue, numBits, None))"

text \<open>
  \<open>dst[n] = enc.encode[v%91]; n++; dst[n] = enc.encode[v/91]; n++\<close>
\<close>

definition put_pair :: "Encoding \<Rightarrow> byte list \<Rightarrow> nat \<Rightarrow> go_uint \<Rightarrow> (byte list \<times> nat) option" where
  "put_pair enc dst n v = do {
     c \<leftarrow> encode_at enc (v mod 91);
     dst \<leftarrow> put dst n c;
     c' \<leftarrow> encode_at enc (v div 91);
     dst \<leftarrow> put dst (n + 1) c';
     Some (dst, n + 2)
   }"

fun Encode_loop ::
  "Encoding \<Rightarrow> byte list \<Rightarrow> nat \<Rightarrow> go_uint \<Rightarrow> go_uint \<Rightarrow> byte list
     \<Rightarrow> (byte list \<times> nat \<times> go_uint \<times> go_uint) option" where
  "Encode_loop enc dst n queue numBits [] = Some (dst, n, queue, numBits)"
| "Encode_loop enc dst n queue numBits (b # src) =
     (case enc_step queue numBits b of
        (queue, numBits, None) \<Rightarrow> Encode_loop enc dst n queue numBits src
      | (queue, numBits, Some v) \<Rightarrow> do {
          (dst, n) \<leftarrow> put_pair enc dst n v;
          Encode_loop enc dst n queue numBits src
        })"

text \<open>
  \<open>Encode\<close> returns the buffer as it leaves it and the number \<open>n\<close> of bytes written.
\<close>

definition Encode :: "Encoding \<Rightarrow> byte list \<Rightarrow> byte list \<Rightarrow> (byte list \<times> nat) option" where
  "Encode enc dst src = do {
     (dst, n, queue, numBits) \<leftarrow> Encode_loop enc dst 0 0 0 src;
     if numBits > 0 then do {
       c \<leftarrow> encode_at enc (queue mod 91);
       dst \<leftarrow> put dst n c;
       if numBits > 7 \<or> queue > 90 then do {
         c' \<leftarrow> encode_at enc (queue div 91);
         dst \<leftarrow> put dst (n + 1) c';
         Some (dst, n + 2)
       } else Some (dst, n + 1)
     } else Some (dst, n)
   }"

text \<open>
  \<open>EncodedLen\<close> is \<open>int(math.Ceil(float64(n) * 16.0 / 13.0))\<close>, in the arithmetic of
  \<open>float64\<close>: the conversion of \<open>n\<close>, the product and the quotient are each rounded
  to 53 significant bits, to the nearest value, a tie going to the even one. For a real
  \<open>x\<close> with \<open>2 ^ (e - 1) \<le> x < 2 ^ e\<close> the values of \<open>float64\<close> around \<open>x\<close> are
  the multiples of \<open>ulp x = 2 ^ (e - 53)\<close>, and \<open>e\<close> is the number of bits of the
  integer part of \<open>x\<close>. \<open>round_f64\<close> is this rounding for \<open>x = 0\<close> and for
  \<open>1 \<le> x < 2 ^ 1024\<close>, where all the operands of \<open>EncodedLen\<close> lie: \<open>n\<close> is 0 or at
  least 1 and below \<open>2 ^ 63\<close>. \<open>math.Ceil\<close> is exact, and so is the conversion of its
  result to \<open>int\<close> as long as the result is below \<open>2 ^ 63\<close>; above, what the
  conversion gives depends on the machine, and \<open>EncodedLen\<close> is used below for no such
  \<open>n\<close>.
\<close>

definition round_even :: "real \<Rightarrow> int" where
  "round_even x =
     (let f = \<lfloor>x\<rfloor> in
      if x - of_int f < 1 / 2 then f
      else if 1 / 2 < x - of_int f then f + 1
      else if even f then f else f + 1)"

definition ulp :: "real \<Rightarrow> real" where
  "ulp x =
     (let e = floorlog 2 (nat \<lfloor>x\<rfloor>)
      in if 53 \<le> e then 2 ^ (e - 53) else 1 / 2 ^ (53 - e))"

definition round_f64 :: "real \<Rightarrow> real" where
  "round_f64 x = (if x = 0 then 0 else of_int (round_even (x / ulp x)) * ulp x)"

definition EncodedLen :: "nat \<Rightarrow> nat" where
  "EncodedLen n = nat \<lceil>round_f64 (round_f64 (round_f64 (real n) * 16) / 13)\<rceil>"

text \<open>\<open>make([]byte, k)\<close> is \<open>k\<close> zero bytes; \<open>buf[:n]\<close> is \<open>take n buf\<close>.\<close>

definition EncodeToString :: "Encoding \<Rightarrow> byte list \<Rightarrow> byte list option" where
  "EncodeToString enc src = do {
     (buf, n) \<leftarrow> Encode enc (replicate (EncodedLen (length src)) 0) src;
     Some (take n buf)
   }"

section \<open>Decoder\<close>

text \<open>
  The arithmetic of the second symbol of a pair: \<open>v += d * 91\<close>, the merge of \<open>v\<close>
  into the queue, and the choice between 13 and 14 bits.
\<close>

definition dec_pair :: "go_uint \<Rightarrow> go_uint \<Rightarrow> int \<Rightarrow> byte \<Rightarrow> go_uint \<times> go_uint" where
  "dec_pair queue numBits v d =
     (let v = v + uint d * 91;
          queue = queue OR push_bit (unat numBits) (word_of_int v)
      in if (v AND 8191) > 88 then (queue, numBits + 13) else (queue, numBits + 14))"

text \<open>
  \<open>for ok := true; ok; ok = (numBits > 7) { dst[n] = byte(queue); n++; queue >>= 8;
  numBits -= 8 }\<close>: the body runs once, and then again as long as more than 7 bits
  are pending.
\<close>

function drain_while ::
  "byte list \<Rightarrow> nat \<Rightarrow> go_uint \<Rightarrow> go_uint \<Rightarrow> (byte list \<times> nat \<times> go_uint \<times> go_uint) option" where
  "drain_while dst n queue numBits =
     (if numBits > 7 then do {
        dst \<leftarrow> put dst n (ucast queue);
        drain_while dst (n + 1) (drop_bit 8 queue) (numBits - 8)
      } else Some (dst, n, queue, numBits))"
  by pat_completeness auto
termination
  by (relation "measure (\<lambda>(dst, n, queue, numBits). unat numBits)")
     (auto simp: word_less_nat_alt unat_sub_if')

declare drain_while.simps [simp del]

definition drain ::
  "byte list \<Rightarrow> nat \<Rightarrow> go_uint \<Rightarrow> go_uint \<Rightarrow> (byte list \<times> nat \<times> go_uint \<times> go_uint) option" where
  "drain dst n queue numBits = do {
     dst \<leftarrow> put dst n (ucast queue);
     drain_while dst (n + 1) (drop_bit 8 queue) (numBits - 8)
   }"

text \<open>
  The loop of \<open>Decode\<close> over the symbols from index \<open>i\<close> on. It ends at the end of
  the input, with no error, or at the first symbol whose entry in \<open>decodeMap\<close> is
  \<open>0xff\<close>, with \<open>CorruptInputError(i)\<close>.
\<close>

fun Decode_loop ::
  "Encoding \<Rightarrow> byte list \<Rightarrow> nat \<Rightarrow> go_uint \<Rightarrow> go_uint \<Rightarrow> int \<Rightarrow> nat \<Rightarrow> byte list
     \<Rightarrow> (byte list \<times> nat \<times> go_uint \<times> go_uint \<times> int \<times> error option) option" where
  "Decode_loop enc dst n queue numBits v i [] = Some (dst, n, queue, numBits, v, None)"
| "Decode_loop enc dst n queue numBits v i (c # src) =
     (if decodeMap enc c = 0xff
        then Some (dst, n, queue, numBits, v, Some (CorruptInputError (int i)))
      else if v = -1
        then Decode_loop enc dst n queue numBits (uint (decodeMap enc c)) (i + 1) src
      else do {
        (queue, numBits) \<leftarrow> Some (dec_pair queue numBits v (decodeMap enc c));
        (dst, n, queue, numBits) \<leftarrow> drain dst n queue numBits;
        Decode_loop enc dst n queue numBits (-1) (i + 1) src
      })"

text \<open>
  \<open>Decode\<close> returns the buffer as it leaves it, the number \<open>n\<close> of bytes written
  and the error, \<open>None\<close> for \<open>nil\<close>.
\<close>

definition Decode ::
  "Encoding \<Rightarrow> byte list \<Rightarrow> byte list \<Rightarrow> (byte list \<times> nat \<times> error option) option" where
  "Decode enc dst src = do {
     (dst, n, queue, numBits, v, err) \<leftarrow> Decode_loop enc dst 0 0 0 (-1) 0 src;
     case err of
       Some e \<Rightarrow> Some (dst, n, Some e)
     | None \<Rightarrow>
         if v \<noteq> -1 then do {
           dst \<leftarrow> put dst n (ucast (queue OR push_bit (unat numBits) (word_of_int v)));
           Some (dst, n + 1, None)
         } else Some (dst, n, None)
   }"

definition DecodedLen :: "nat \<Rightarrow> nat" where
  "DecodedLen n = n"

definition DecodeString :: "Encoding \<Rightarrow> byte list \<Rightarrow> (byte list \<times> error option) option" where
  "DecodeString enc s = do {
     (dbuf, n, err) \<leftarrow> Decode enc (replicate (DecodedLen (length s)) 0) s;
     Some (take n dbuf, err)
   }"

section \<open>The arithmetic of the bit queue\<close>

text \<open>
  The definitions of this section are not functions of the source. They state on
  natural numbers what the loops above compute on machine words, and the proofs below
  show that the two agree.

  \<open>val bs\<close> is the number whose little-endian base-256 digits are the bytes \<open>bs\<close>,
  and \<open>le_bytes j q\<close> is the list of the \<open>j\<close> lowest such digits of \<open>q\<close>.
\<close>

fun val :: "byte list \<Rightarrow> nat" where
  "val [] = 0"
| "val (b # bs) = unat b + 256 * val bs"

fun le_bytes :: "nat \<Rightarrow> nat \<Rightarrow> byte list" where
  "le_bytes 0 q = []"
| "le_bytes (Suc j) q = of_nat q # le_bytes j (q div 256)"

text \<open>
  The number of bits that a value \<open>v\<close> of a pair of symbols stands for, as the decoder
  reads it off \<open>v\<close>; \<open>widths\<close> adds it up over a list of values, and \<open>cat vs\<close> is
  the number obtained by writing the values \<open>vs\<close> one above the other, each on its
  width, the first one lowest.
\<close>

definition width :: "nat \<Rightarrow> nat" where
  "width v = (if v mod 8192 > 88 then 13 else 14)"

definition widths :: "nat list \<Rightarrow> nat" where
  "widths vs = sum_list (map width vs)"

fun cat :: "nat list \<Rightarrow> nat" where
  "cat [] = 0"
| "cat (v # vs) = v + 2 ^ width v * cat vs"

text \<open>
  \<open>enc_step\<close> on natural numbers, and the loop of \<open>Encode\<close> as the list of the values it
  takes off the queue, with the queue and the count it ends with.
\<close>

definition enc_step_n :: "nat \<Rightarrow> nat \<Rightarrow> byte \<Rightarrow> nat \<times> nat \<times> nat option" where
  "enc_step_n q nb b =
     (let q = q + unat b * 2 ^ nb; nb = nb + 8
      in if nb > 13 then
           (if q mod 8192 > 88 then (q div 8192, nb - 13, Some (q mod 8192))
            else (q div 16384, nb - 14, Some (q mod 16384)))
         else (q, nb, None))"

fun enc_vals :: "nat \<Rightarrow> nat \<Rightarrow> byte list \<Rightarrow> nat list \<times> nat \<times> nat" where
  "enc_vals q nb [] = ([], q, nb)"
| "enc_vals q nb (b # bs) =
     (case enc_step_n q nb b of (q', nb', ov) \<Rightarrow>
        (case enc_vals q' nb' bs of (vs, qf, nf) \<Rightarrow>
           ((case ov of None \<Rightarrow> [] | Some v \<Rightarrow> [v]) @ vs, qf, nf)))"

text \<open>
  The loop of \<open>Decode\<close> on a list of values of pairs: each value goes on top of the
  queue with its width, and the whole bytes then pending are written, lowest first.
\<close>

fun dec_vals :: "nat \<Rightarrow> nat \<Rightarrow> nat list \<Rightarrow> byte list \<times> nat \<times> nat" where
  "dec_vals q nb [] = ([], q, nb)"
| "dec_vals q nb (v # vs) =
     (let q1 = q + v * 2 ^ nb; n1 = nb + width v; j = n1 div 8
      in case dec_vals (q1 div 256 ^ j) (n1 mod 8) vs of (out, qf, nf) \<Rightarrow>
           (le_bytes j q1 @ out, qf, nf))"

text \<open>
  What holds of the queue at the head of the loop of \<open>Encode\<close> and of the loop of
  \<open>Decode\<close>: at most 13, respectively 7, bits are pending, and the queue holds nothing
  above them.
\<close>

definition enc_inv :: "nat \<Rightarrow> nat \<Rightarrow> bool" where
  "enc_inv q nb \<longleftrightarrow> nb \<le> 13 \<and> q < 2 ^ nb"

definition dec_inv :: "nat \<Rightarrow> nat \<Rightarrow> bool" where
  "dec_inv q nb \<longleftrightarrow> nb \<le> 7 \<and> q < 2 ^ nb"

text \<open>
  \<open>overwrite dst n out\<close> is the buffer \<open>dst\<close> after the bytes \<open>out\<close> are written
  from the index \<open>n\<close> on.
\<close>

definition overwrite :: "byte list \<Rightarrow> nat \<Rightarrow> byte list \<Rightarrow> byte list" where
  "overwrite dst n out = take n dst @ out @ drop (n + length out) dst"

text \<open>
  The symbols of a value, of a list of values, and of what is left in the queue when the
  input ends; \<open>encode_syms enc src\<close> is then the whole text that \<open>Encode\<close> writes
  for \<open>src\<close>.
\<close>

definition pair_syms :: "Encoding \<Rightarrow> nat \<Rightarrow> byte list" where
  "pair_syms enc v = [encode enc ! (v mod 91), encode enc ! (v div 91)]"

definition syms :: "Encoding \<Rightarrow> nat list \<Rightarrow> byte list" where
  "syms enc vs = concat (map (pair_syms enc) vs)"

definition flush_syms :: "Encoding \<Rightarrow> nat \<Rightarrow> nat \<Rightarrow> byte list" where
  "flush_syms enc q nb =
     (if 0 < nb then (if 7 < nb \<or> 90 < q then pair_syms enc q else [encode enc ! (q mod 91)])
      else [])"

definition encode_syms :: "Encoding \<Rightarrow> byte list \<Rightarrow> byte list" where
  "encode_syms enc src =
     (case enc_vals 0 0 src of (vs, q, nb) \<Rightarrow> syms enc vs @ flush_syms enc q nb)"

text \<open>
  An encoding whose \<open>decodeMap\<close> inverts its \<open>encode\<close>, and the \<open>decodeMap\<close> that the
  loops of \<open>NewEncoding\<close> have built after \<open>n\<close> symbols of the alphabet \<open>a\<close>.
\<close>

definition valid_table :: "Encoding \<Rightarrow> bool" where
  "valid_table enc \<longleftrightarrow>
     length (encode enc) = 91 \<and> (\<forall>k < 91. decodeMap enc (encode enc ! k) = of_nat k)"

definition fill :: "byte list \<Rightarrow> nat \<Rightarrow> byte \<Rightarrow> byte" where
  "fill a n = fold (\<lambda>i m. m(a ! i := of_nat i)) [0 ..< n] (\<lambda>_. 0xff)"

section \<open>The states of the bit queue\<close>

text \<open>
  The states \<open>(queue, numBits)\<close> that the bit queue of \<open>Encode\<close> goes through, in
  order: at the head of each iteration, after the byte is merged and \<open>numBits += 8\<close>,
  and, as the head of the next iteration, after a value is taken off. The flush after
  the loop does not change the queue.
\<close>

fun Encode_trace :: "go_uint \<Rightarrow> go_uint \<Rightarrow> byte list \<Rightarrow> (go_uint \<times> go_uint) list" where
  "Encode_trace queue numBits [] = [(queue, numBits)]"
| "Encode_trace queue numBits (b # src) =
     (queue, numBits) # (queue OR push_bit (unat numBits) (ucast b), numBits + 8) #
     (case enc_step queue numBits b of
        (queue', numBits', v) \<Rightarrow> Encode_trace queue' numBits' src)"

text \<open>
  The states of the bit queue after each pass through the body of the draining loop of
  \<open>Decode\<close>.
\<close>

function drain_while_trace :: "go_uint \<Rightarrow> go_uint \<Rightarrow> (go_uint \<times> go_uint) list" where
  "drain_while_trace queue numBits =
     (if numBits > 7
      then (drop_bit 8 queue, numBits - 8) # drain_while_trace (drop_bit 8 queue) (numBits - 8)
      else [])"
  by pat_completeness auto
termination
  by (relation "measure (\<lambda>(queue, numBits). unat numBits)")
     (auto simp: word_less_nat_alt unat_sub_if')

declare drain_while_trace.simps [simp del]

definition drain_trace :: "go_uint \<Rightarrow> go_uint \<Rightarrow> (go_uint \<times> go_uint) list" where
  "drain_trace queue numBits =
     (drop_bit 8 queue, numBits - 8) # drain_while_trace (drop_bit 8 queue) (numBits - 8)"

text \<open>
  The states of the bit queue of \<open>Decode\<close>, in order: at the head of an iteration
  that completes a pair, after the pair is merged and \<open>numBits\<close> is increased by 13 or
  14, after each pass of the draining loop, and where the loop ends. The flush after the
  loop does not change the queue.
\<close>

fun Decode_trace ::
  "Encoding \<Rightarrow> go_uint \<Rightarrow> go_uint \<Rightarrow> int \<Rightarrow> byte list \<Rightarrow> (go_uint \<times> go_uint) list" where
  "Decode_trace enc queue numBits v [] = [(queue, numBits)]"
| "Decode_trace enc queue numBits v (c # src) =
     (if decodeMap enc c = 0xff then [(queue, numBits)]
      else if v = -1 then Decode_trace enc queue numBits (uint (decodeMap enc c)) src
      else (case dec_pair queue numBits v (decodeMap enc c) of
              (queue1, numBits1) \<Rightarrow>
                (queue, numBits) # (queue1, numBits1) # drain_trace queue1 numBits1 @
                (case last (drain_trace queue1 numBits1) of
                   (queue2, numBits2) \<Rightarrow> Decode_trace enc queue2 numBits2 (-1) src)))"

section \<open>Properties of the bit-queue arithmetic\<close>

text \<open>
  On natural numbers. The values that the encoder takes off the queue, written one above
  the other with what is left in the queue, are the input read as one little-endian
  number (\<open>enc_vals_inv\<close>); the decoder writes the bytes of the number that it is
  given in this way (\<open>dec_vals_inv\<close>); a list of bytes is determined by its length and
  its number (\<open>val_inj\<close>).
\<close>

lemma unat_byte_less: "unat (b :: byte) < 256"
  using unsigned_less [of b, where 'a = nat] by simp

lemma val_append: "val (xs @ ys) = val xs + 256 ^ length xs * val ys"
  by (induction xs) (auto simp: algebra_simps)

lemma val_less: "val xs < 256 ^ length xs"
proof (induction xs)
  case Nil show ?case by simp
next
  case (Cons b xs)
  with unat_byte_less [of b] show ?case by simp
qed

lemma byte_digit_eq:
  assumes "x < 256" "y < 256" "x + 256 * a = y + 256 * b"
  shows "x = (y::nat)" and "a = (b::nat)"
proof -
  from assms(3) have "(x + 256 * a) mod 256 = (y + 256 * b) mod 256" by simp
  with assms(1,2) show "x = y" by simp
  from assms(3) have "(x + 256 * a) div 256 = (y + 256 * b) div 256" by simp
  with assms(1,2) show "a = b" by simp
qed

lemma val_inj: "length xs = length ys \<Longrightarrow> val xs = val ys \<Longrightarrow> xs = ys"
proof (induction xs ys rule: list_induct2)
  case Nil show ?case by simp
next
  case (Cons x xs y ys)
  have x: "unat x < 256" and y: "unat y < 256" by (rule unat_byte_less)+
  from Cons.prems have e: "unat x + 256 * val xs = unat y + 256 * val ys" by simp
  from x y e have "unat x = unat y" and "val xs = val ys" by (rule byte_digit_eq)+
  then show ?case using Cons.IH by (simp add: word_unat_eq_iff)
qed

lemma length_le_bytes [simp]: "length (le_bytes j q) = j"
  by (induction j arbitrary: q) auto

lemma unat_of_nat_byte: "unat (of_nat q :: byte) = q mod 256"
  by (simp add: unat_of_nat)

lemma val_le_bytes: "val (le_bytes j q) = q mod 256 ^ j"
proof (induction j arbitrary: q)
  case 0 show ?case by simp
next
  case (Suc j)
  have "q mod (256 * 256 ^ j) = q mod 256 + 256 * (q div 256 mod 256 ^ j)"
    by (simp add: mod_mult2_eq)
  with Suc show ?case by (simp add: unat_of_nat_byte)
qed

lemma shift_in_less: "q < 2 ^ nb \<Longrightarrow> b \<le> (255::nat) \<Longrightarrow> q + b * 2 ^ nb < 2 ^ (nb + 8)"
proof -
  assume q: "q < 2 ^ nb" and b: "b \<le> 255"
  have "b * 2 ^ nb \<le> 255 * 2 ^ nb" using b by (rule mult_le_mono1)
  with q have "q + b * 2 ^ nb < 256 * 2 ^ nb" by linarith
  then show ?thesis by (simp add: power_add)
qed

lemma div_pow_less: "(q::nat) < 2 ^ n \<Longrightarrow> w \<le> n \<Longrightarrow> q div 2 ^ w < 2 ^ (n - w)"
proof -
  assume q: "q < 2 ^ n" and w: "w \<le> n"
  have "(2::nat) ^ n = 2 ^ (n - w) * 2 ^ w" using w by (simp flip: power_add)
  with q show ?thesis by (simp add: less_mult_imp_div_less)
qed

lemma mod_16384_le: "(q::nat) mod 8192 \<le> 88 \<Longrightarrow> q mod 16384 \<le> 8280"
proof -
  assume small: "q mod 8192 \<le> 88"
  have "q mod 16384 = q mod 8192 + 8192 * (q div 8192 mod 2)"
    using mod_mult2_eq [of q 8192 2] by simp
  moreover have "q div 8192 mod 2 \<le> 1" by simp
  ultimately show ?thesis using small by linarith
qed

lemma width_13: "88 < q mod 8192 \<Longrightarrow> width (q mod 8192) = 13"
  by (simp add: width_def)

lemma width_14: "\<not> 88 < q mod 8192 \<Longrightarrow> width (q mod 16384) = 14"
  by (simp add: width_def mod_mod_cancel)

lemma width_cases: "width v = 13 \<or> width v = 14"
  by (simp add: width_def)

lemma less_pow_width: "v \<le> 8280 \<Longrightarrow> v < 2 ^ width v"
proof (cases "88 < v mod 8192")
  case False
  assume "v \<le> 8280"
  with False show ?thesis by (simp add: width_def)
next
  case True
  assume v: "v \<le> 8280"
  have "v < 8192"
  proof (rule ccontr)
    assume "\<not> v < 8192"
    then have "v mod 8192 = (v - 8192) mod 8192"
      by (simp add: le_mod_geq)
    also have "\<dots> = v - 8192" using v by simp
    finally show False using v True by simp
  qed
  with True show ?thesis by (simp add: width_def)
qed

lemma enc_step_n_keep:
  assumes "enc_inv q nb" "nb + 8 \<le> 13"
  shows "enc_step_n q nb b = (q + unat b * 2 ^ nb, nb + 8, None)"
    and "enc_inv (q + unat b * 2 ^ nb) (nb + 8)"
proof -
  show "enc_step_n q nb b = (q + unat b * 2 ^ nb, nb + 8, None)"
    using assms(2) by (simp add: enc_step_n_def)
  have "unat b \<le> 255" using unat_byte_less [of b] by simp
  moreover from assms have "q < 2 ^ nb" by (simp add: enc_inv_def)
  ultimately have "q + unat b * 2 ^ nb < 2 ^ (nb + 8)" by (intro shift_in_less)
  with assms(2) show "enc_inv (q + unat b * 2 ^ nb) (nb + 8)"
    by (simp add: enc_inv_def)
qed

lemma enc_step_n_take:
  assumes "enc_inv q nb" "13 < nb + 8"
  obtains v q' where
    "enc_step_n q nb b = (q', nb + 8 - width v, Some v)"
    "q + unat b * 2 ^ nb = v + 2 ^ width v * q'"
    "v \<le> 8280" "enc_inv q' (nb + 8 - width v)"
proof -
  define Q where "Q = q + unat b * 2 ^ nb"
  have "unat b \<le> 255" using unat_byte_less [of b] by simp
  moreover from assms have "q < 2 ^ nb" by (simp add: enc_inv_def)
  ultimately have Q: "Q < 2 ^ (nb + 8)"
    unfolding Q_def by (intro shift_in_less)
  from assms have nb: "nb \<le> 13" by (simp add: enc_inv_def)
  show thesis
  proof (cases "88 < Q mod 8192")
    case True
    have w: "width (Q mod 8192) = 13" using True by (rule width_13)
    have 1: "enc_step_n q nb b = (Q div 8192, nb + 8 - width (Q mod 8192), Some (Q mod 8192))"
      using True assms(2) by (simp add: enc_step_n_def Q_def [symmetric] w)
    have 2: "q + unat b * 2 ^ nb = Q mod 8192 + 2 ^ width (Q mod 8192) * (Q div 8192)"
      by (simp add: w Q_def [symmetric])
    have 3: "Q mod 8192 \<le> 8280"
      using mod_less_divisor [of 8192 Q] by linarith
    have "Q div 2 ^ 13 < 2 ^ (nb + 8 - 13)"
      using Q assms(2) by (intro div_pow_less) simp_all
    with nb have 4: "enc_inv (Q div 8192) (nb + 8 - width (Q mod 8192))"
      by (simp add: enc_inv_def w)
    from 1 2 3 4 show thesis by (rule that)
  next
    case False
    have w: "width (Q mod 16384) = 14" using False by (rule width_14)
    have 1: "enc_step_n q nb b = (Q div 16384, nb + 8 - width (Q mod 16384), Some (Q mod 16384))"
      using False assms(2) by (simp add: enc_step_n_def Q_def [symmetric] w)
    have 2: "q + unat b * 2 ^ nb = Q mod 16384 + 2 ^ width (Q mod 16384) * (Q div 16384)"
      by (simp add: w Q_def [symmetric])
    have 3: "Q mod 16384 \<le> 8280"
      using False by (intro mod_16384_le) simp
    have "Q div 2 ^ 14 < 2 ^ (nb + 8 - 14)"
      using Q assms(2) by (intro div_pow_less) simp_all
    with nb have 4: "enc_inv (Q div 16384) (nb + 8 - width (Q mod 16384))"
      by (simp add: enc_inv_def w)
    from 1 2 3 4 show thesis by (rule that)
  qed
qed

lemma widths_Nil [simp]: "widths [] = 0"
  by (simp add: widths_def)

lemma widths_Cons [simp]: "widths (v # vs) = width v + widths vs"
  by (simp add: widths_def)

lemma widths_ge: "13 * length vs \<le> widths vs"
proof (induction vs)
  case Nil show ?case by simp
next
  case (Cons v vs)
  with width_cases [of v] show ?case by auto
qed

lemma widths_le: "widths vs \<le> 14 * length vs"
proof (induction vs)
  case Nil show ?case by simp
next
  case (Cons v vs)
  with width_cases [of v] show ?case by auto
qed

lemma enc_vals_keep:
  assumes "enc_inv q nb" "nb + 8 \<le> 13"
  shows "enc_vals q nb (b # bs) = enc_vals (q + unat b * 2 ^ nb) (nb + 8) bs"
  using enc_step_n_keep(1) [OF assms, of b] by (simp split: prod.splits)

lemma enc_vals_inv:
  assumes "enc_inv q nb" "enc_vals q nb bs = (vs, qf, nf)"
  shows "enc_inv qf nf"
    and "q + 2 ^ nb * val bs = cat vs + 2 ^ widths vs * qf"
    and "nb + 8 * length bs = widths vs + nf"
    and "\<forall>v \<in> set vs. v \<le> 8280"
  using assms
proof (induction bs arbitrary: q nb vs)
  case Nil
  { case 1 then show ?case by simp }
  { case 2 then show ?case by simp }
  { case 3 then show ?case by simp }
  { case 4 then show ?case by simp }
next
  case (Cons b bs)
  have st: "enc_inv qf nf \<and> q + 2 ^ nb * val (b # bs) = cat vs + 2 ^ widths vs * qf
      \<and> nb + 8 * length (b # bs) = widths vs + nf \<and> (\<forall>v \<in> set vs. v \<le> 8280)"
    if inv: "enc_inv q nb" and run: "enc_vals q nb (b # bs) = (vs, qf, nf)" for q nb vs
  proof (cases "nb + 8 \<le> 13")
    case True
    let ?Q = "q + unat b * 2 ^ nb"
    have inv': "enc_inv ?Q (nb + 8)" using inv True by (rule enc_step_n_keep(2))
    have run': "enc_vals ?Q (nb + 8) bs = (vs, qf, nf)"
      using run enc_vals_keep [OF inv True, of b bs] by simp
    have "q + 2 ^ nb * val (b # bs) = ?Q + 2 ^ (nb + 8) * val bs"
      by (simp add: power_add algebra_simps)
    with Cons.IH(1) [OF inv' run'] Cons.IH(2) [OF inv' run'] Cons.IH(3) [OF inv' run']
      Cons.IH(4) [OF inv' run']
    show ?thesis by simp
  next
    case False
    then have gt: "13 < nb + 8" by simp
    from inv gt obtain v q' where
      step: "enc_step_n q nb b = (q', nb + 8 - width v, Some v)"
      and split: "q + unat b * 2 ^ nb = v + 2 ^ width v * q'"
      and v: "v \<le> 8280" and inv': "enc_inv q' (nb + 8 - width v)"
      by (rule enc_step_n_take)
    obtain vs' where run': "enc_vals q' (nb + 8 - width v) bs = (vs', qf, nf)"
      and vs: "vs = v # vs'"
      using run step by (auto split: prod.splits)
    have w: "width v \<le> nb + 8" using gt width_cases [of v] by auto
    have "q + 2 ^ nb * val (b # bs) = (q + unat b * 2 ^ nb) + 2 ^ (nb + 8) * val bs"
      by (simp add: power_add algebra_simps)
    also have "\<dots> = v + 2 ^ width v * q' + 2 ^ (width v + (nb + 8 - width v)) * val bs"
      using split w by simp
    also have "\<dots> = v + 2 ^ width v * (q' + 2 ^ (nb + 8 - width v) * val bs)"
      by (simp only: power_add distrib_left mult.assoc add.assoc)
    also have "\<dots> = v + 2 ^ width v * (cat vs' + 2 ^ widths vs' * qf)"
      using Cons.IH(2) [OF inv' run'] by simp
    also have "\<dots> = cat vs + 2 ^ widths vs * qf"
      by (simp add: vs power_add distrib_left mult.assoc)
    finally have "q + 2 ^ nb * val (b # bs) = cat vs + 2 ^ widths vs * qf" .
    moreover have "nb + 8 * length (b # bs) = widths vs + nf"
      using Cons.IH(3) [OF inv' run'] w by (simp add: vs)
    ultimately show ?thesis
      using Cons.IH(1) [OF inv' run'] Cons.IH(4) [OF inv' run'] v by (simp add: vs)
  qed
  { case 1 with st show ?case by blast }
  { case 2 with st show ?case by blast }
  { case 3 with st show ?case by blast }
  { case 4 with st show ?case by blast }
qed

lemma merge_less: "q < 2 ^ nb \<Longrightarrow> v < 2 ^ w \<Longrightarrow> q + v * 2 ^ nb < (2::nat) ^ (nb + w)"
proof -
  assume q: "q < 2 ^ nb" and v: "v < 2 ^ w"
  from v have "Suc v \<le> 2 ^ w" by simp
  then have "Suc v * 2 ^ nb \<le> 2 ^ w * 2 ^ nb" by (rule mult_le_mono1)
  moreover from q have "q + v * 2 ^ nb < Suc v * 2 ^ nb" by simp
  ultimately show ?thesis by (simp add: power_add mult.commute)
qed

lemma pow256: "(256::nat) ^ j = 2 ^ (8 * j)"
  by (simp add: power_mult)

lemma dec_vals_inv:
  assumes "dec_inv q nb" "\<forall>v \<in> set vs. v \<le> 8280" "dec_vals q nb vs = (out, qf, nf)"
  shows "dec_inv qf nf"
    and "val out + 256 ^ length out * qf = q + 2 ^ nb * cat vs"
    and "nb + widths vs = 8 * length out + nf"
proof -
  have "dec_inv qf nf \<and> val out + 256 ^ length out * qf = q + 2 ^ nb * cat vs
      \<and> nb + widths vs = 8 * length out + nf"
    using assms
  proof (induction vs arbitrary: q nb out)
    case Nil
    then show ?case by simp
  next
    case (Cons v vs)
    define q1 where "q1 = q + v * 2 ^ nb"
    define n1 where "n1 = nb + width v"
    define j where "j = n1 div 8"
    from Cons.prems(3) obtain out' where
      run': "dec_vals (q1 div 256 ^ j) (n1 mod 8) vs = (out', qf, nf)"
      and out: "out = le_bytes j q1 @ out'"
      by (auto simp: Let_def q1_def n1_def j_def split: prod.splits)
    from Cons.prems(2) have v: "v < 2 ^ width v" by (simp add: less_pow_width)
    from Cons.prems(1) have q: "q < 2 ^ nb" by (simp add: dec_inv_def)
    from q v have q1: "q1 < 2 ^ n1" unfolding q1_def n1_def by (rule merge_less)
    have n1: "n1 = 8 * j + n1 mod 8" by (simp add: j_def)
    have "q1 div 2 ^ (8 * j) < 2 ^ (n1 - 8 * j)"
      using q1 by (rule div_pow_less) (simp add: j_def)
    moreover have "n1 - 8 * j = n1 mod 8" using n1 by linarith
    ultimately have inv': "dec_inv (q1 div 256 ^ j) (n1 mod 8)"
      by (simp add: dec_inv_def pow256)
    from Cons.prems(2) have vs: "\<forall>v \<in> set vs. v \<le> 8280" by simp
    note IH = Cons.IH [OF inv' vs run']
    have "val out + 256 ^ length out * qf
        = q1 mod 256 ^ j + 256 ^ j * (val out' + 256 ^ length out' * qf)"
      by (simp add: out val_append val_le_bytes power_add distrib_left mult.assoc)
    also have "\<dots> = q1 mod 256 ^ j + 256 ^ j * (q1 div 256 ^ j + 2 ^ (n1 mod 8) * cat vs)"
      using IH by simp
    also have "\<dots> = q1 + 256 ^ j * 2 ^ (n1 mod 8) * cat vs"
      by (simp add: distrib_left mult.assoc)
    also have "256 ^ j * 2 ^ (n1 mod 8) = (2::nat) ^ n1"
      using n1 by (simp add: pow256 flip: power_add)
    also have "q1 + 2 ^ n1 * cat vs = q + 2 ^ nb * cat (v # vs)"
      by (simp add: q1_def n1_def power_add distrib_left mult.assoc mult.commute)
    finally have "val out + 256 ^ length out * qf = q + 2 ^ nb * cat (v # vs)" .
    moreover have "nb + widths (v # vs) = 8 * length out + nf"
      using IH n1 by (simp add: out n1_def)
    ultimately show ?case using IH by simp
  qed
  then show "dec_inv qf nf"
    and "val out + 256 ^ length out * qf = q + 2 ^ nb * cat vs"
    and "nb + widths vs = 8 * length out + nf"
    by simp_all
qed

lemma widths_append [simp]: "widths (xs @ ys) = widths xs + widths ys"
  by (simp add: widths_def)

lemma cat_append: "cat (xs @ ys) = cat xs + 2 ^ widths xs * cat ys"
  by (induction xs) (simp_all add: power_add distrib_left mult.assoc)

lemma enc_inv_0: "enc_inv 0 0"
  by (simp add: enc_inv_def)

lemma dec_inv_0: "dec_inv 0 0"
  by (simp add: dec_inv_def)

lemma val_eqI:
  assumes "length out = length bs" "val bs = val out + 256 ^ length out * r"
  shows "out = bs"
proof -
  have "val bs < 256 ^ length out" using val_less [of bs] assms(1) by simp
  with assms(2) have lt: "256 ^ length out * r < (256::nat) ^ length out" by linarith
  have "r = 0"
  proof (rule ccontr)
    assume "r \<noteq> 0"
    then have "(256::nat) ^ length out * 1 \<le> 256 ^ length out * r"
      by (intro mult_le_mono2) simp
    with lt show False by simp
  qed
  with assms(2) have "val out = val bs" by simp
  with assms(1) show ?thesis by (rule val_inj)
qed

lemma flush_width:
  assumes "enc_inv qf nf" "7 < nf \<or> 90 < qf"
  shows "nf \<le> width qf" and "width qf < nf + 8" and "qf \<le> 8280"
proof -
  from assms(1) have nf: "nf \<le> 13" and qf: "qf < 2 ^ nf" by (simp_all add: enc_inv_def)
  from nf width_cases [of qf] show "nf \<le> width qf" by auto
  have "(2::nat) ^ nf \<le> 2 ^ 13" using nf by (intro power_increasing) simp_all
  with qf have qf': "qf < 8192" by simp
  then show "qf \<le> 8280" by simp
  show "width qf < nf + 8"
  proof (cases "7 < nf")
    case True
    with width_cases [of qf] show ?thesis by auto
  next
    case False
    with assms(2) have big: "90 < qf" by simp
    have "nf = 7"
    proof (rule ccontr)
      assume "nf \<noteq> 7"
      with False have "nf \<le> 6" by simp
      then have "(2::nat) ^ nf \<le> 2 ^ 6" by (intro power_increasing) simp_all
      with qf big show False by simp
    qed
    moreover from big qf' have "width qf = 13" by (simp add: width_def)
    ultimately show ?thesis by simp
  qed
qed

lemma roundtrip_pairs:
  assumes enc: "enc_vals 0 0 bs = (vs, qf, nf)"
    and dec: "dec_vals 0 0 ws = (out, qd, nd)"
    and ws: "ws = vs \<and> nf = 0 \<or> ws = vs @ [qf] \<and> (7 < nf \<or> 90 < qf)"
  shows "out = bs"
proof -
  note E = enc_vals_inv [OF enc_inv_0 enc]
  from E(2) have Eval: "val bs = cat vs + 2 ^ widths vs * qf" by simp
  from E(3) have Elen: "8 * length bs = widths vs + nf" by simp
  from ws show ?thesis
  proof
    assume a: "ws = vs \<and> nf = 0"
    with E(4) have "\<forall>v \<in> set ws. v \<le> 8280" by simp
    note D = dec_vals_inv [OF dec_inv_0 this dec]
    from E(1) a have qf: "qf = 0" by (simp add: enc_inv_def)
    from D(1) have "nd \<le> 7" by (simp add: dec_inv_def)
    with D(3) Elen a have len: "length out = length bs" by simp
    from D(2) Eval qf a have "val bs = val out + 256 ^ length out * qd" by simp
    with len show ?thesis by (rule val_eqI)
  next
    assume a: "ws = vs @ [qf] \<and> (7 < nf \<or> 90 < qf)"
    then have fl: "7 < nf \<or> 90 < qf" ..
    note F = flush_width [OF E(1) fl]
    from E(4) F(3) a have "\<forall>v \<in> set ws. v \<le> 8280" by simp
    note D = dec_vals_inv [OF dec_inv_0 this dec]
    from D(1) have "nd \<le> 7" by (simp add: dec_inv_def)
    with D(3) Elen a F(1,2) have len: "length out = length bs" by simp
    from D(2) Eval a have "val bs = val out + 256 ^ length out * qd"
      by (simp add: cat_append)
    with len show ?thesis by (rule val_eqI)
  qed
qed

lemma roundtrip_single:
  assumes enc: "enc_vals 0 0 bs = (vs, qf, nf)"
    and dec: "dec_vals 0 0 vs = (out, qd, nd)"
    and fl: "0 < nf" "\<not> (7 < nf \<or> 90 < qf)"
  shows "out @ [of_nat (qd + qf * 2 ^ nd)] = bs"
    and "qd + qf * 2 ^ nd < 256"
proof -
  note E = enc_vals_inv [OF enc_inv_0 enc]
  from E(2) have Eval: "val bs = cat vs + 2 ^ widths vs * qf" by simp
  from E(3) have Elen: "8 * length bs = widths vs + nf" by simp
  note D = dec_vals_inv [OF dec_inv_0 E(4) dec]
  from D(1) have nd: "nd \<le> 7" and qd: "qd < 2 ^ nd" by (simp_all add: dec_inv_def)
  from E(1) have qf: "qf < 2 ^ nf" by (simp add: enc_inv_def)
  from D(3) Elen nd fl have sum: "nd + nf = 8" and len: "length bs = length out + 1"
    by arith+
  from qd qf have "qd + qf * 2 ^ nd < 2 ^ (nd + nf)" by (rule merge_less)
  with sum show R: "qd + qf * 2 ^ nd < 256" by simp
  define B :: byte where "B = of_nat (qd + qf * 2 ^ nd)"
  from R have B: "unat B = qd + qf * 2 ^ nd"
    unfolding B_def by (simp only: unat_of_nat_byte mod_less)
  have "widths vs = 8 * length out + nd" using D(3) by simp
  then have "(2::nat) ^ widths vs = 256 ^ length out * 2 ^ nd"
    by (simp add: pow256 power_add)
  then have pw: "(2::nat) ^ widths vs * qf = 256 ^ length out * (qf * 2 ^ nd)"
    by (simp add: mult.assoc mult.commute)
  have "val (out @ [B]) = val out + 256 ^ length out * (qd + qf * 2 ^ nd)"
    by (simp add: val_append B)
  also have "\<dots> = (val out + 256 ^ length out * qd) + 256 ^ length out * (qf * 2 ^ nd)"
    by (simp only: distrib_left add.assoc)
  also have "\<dots> = val bs"
    using D(2) Eval pw by simp
  finally have "val bs = val (out @ [B]) + 256 ^ length (out @ [B]) * 0" by simp
  with len have "out @ [B] = bs" by (intro val_eqI) simp_all
  then show "out @ [of_nat (qd + qf * 2 ^ nd)] = bs" by (simp only: B_def)
qed

section \<open>The machine words carry out the arithmetic\<close>

text \<open>
  The queue of the encoder holds at most 21 bits, so that no operation on the 64-bit
  words wraps, and each one is the operation on natural numbers.
\<close>

lemma unat_of_nat64: "N < 2 ^ 64 \<Longrightarrow> unat (of_nat N :: go_uint) = N"
  by (simp add: unat_of_nat)

lemma of_nat_unat64: "unat w = N \<Longrightarrow> (w :: go_uint) = of_nat N"
  by auto

lemma nat_or_push_bit: "Q < 2 ^ N \<Longrightarrow> (Q::nat) OR push_bit N B = Q + B * 2 ^ N"
proof -
  assume Q: "Q < 2 ^ N"
  have "Q AND push_bit N B = 0"
  proof (rule bit_eqI)
    fix k
    show "bit (Q AND push_bit N B) k \<longleftrightarrow> bit (0::nat) k"
    proof (cases "N \<le> k")
      case True
      then have "(2::nat) ^ N \<le> 2 ^ k" by (intro power_increasing) simp_all
      with Q have "Q < 2 ^ k" by linarith
      then have "Q div 2 ^ k = 0" by simp
      then have "\<not> bit Q k" by (simp add: bit_iff_odd)
      then show ?thesis by (simp add: bit_and_iff)
    next
      case False
      then show ?thesis by (simp add: bit_and_iff bit_push_bit_iff)
    qed
  qed
  then have "Q + push_bit N B = Q OR push_bit N B" by (rule disjunctive_add_eq_or)
  then show ?thesis by (simp add: push_bit_eq_mult)
qed

lemma nat_and_8191: "(Q::nat) AND 8191 = Q mod 8192"
proof -
  have "(8191::nat) = mask 13" by (simp add: mask_eq_exp_minus_1)
  then have "Q AND 8191 = take_bit 13 Q" by (simp only: take_bit_eq_mask)
  then show ?thesis by (simp add: take_bit_eq_mod)
qed

lemma nat_and_16383: "(Q::nat) AND 16383 = Q mod 16384"
proof -
  have "(16383::nat) = mask 14" by (simp add: mask_eq_exp_minus_1)
  then have "Q AND 16383 = take_bit 14 Q" by (simp only: take_bit_eq_mask)
  then show ?thesis by (simp add: take_bit_eq_mod)
qed

lemma word_and_8191: "(of_nat Q :: go_uint) AND 8191 = of_nat (Q mod 8192)"
  using of_nat_and_eq [of Q 8191, where 'a = go_uint] by (simp add: nat_and_8191)

lemma word_and_16383: "(of_nat Q :: go_uint) AND 16383 = of_nat (Q mod 16384)"
  using of_nat_and_eq [of Q 16383, where 'a = go_uint] by (simp add: nat_and_16383)

lemma word_drop_bit: "Q < 2 ^ 64 \<Longrightarrow> drop_bit k (of_nat Q :: go_uint) = of_nat (Q div 2 ^ k)"
proof (rule of_nat_unat64)
  assume Q: "Q < 2 ^ 64"
  have "unat (drop_bit k (of_nat Q :: go_uint)) = drop_bit k (unat (of_nat Q :: go_uint))"
    by (rule unat_drop_bit_eq)
  also have "\<dots> = drop_bit k Q" using Q by (simp only: unat_of_nat64)
  also have "\<dots> = Q div 2 ^ k" by (rule drop_bit_eq_div)
  finally show "unat (drop_bit k (of_nat Q :: go_uint)) = Q div 2 ^ k" .
qed

lemma word_less64: "a < 2 ^ 64 \<Longrightarrow> b < 2 ^ 64 \<Longrightarrow> (of_nat a :: go_uint) < of_nat b \<longleftrightarrow> a < b"
  by (simp add: unat_of_nat64 word_less_nat_alt)

lemma word_mod_91: "v < 2 ^ 64 \<Longrightarrow> unat ((of_nat v :: go_uint) mod 91) = v mod 91"
  by (simp add: unat_mod unat_of_nat64)

lemma word_div_91: "v < 2 ^ 64 \<Longrightarrow> unat ((of_nat v :: go_uint) div 91) = v div 91"
  by (simp add: unat_div unat_of_nat64)

lemma ucast_of_nat_byte: "ucast (of_nat Q :: go_uint) = (of_nat Q :: byte)"
  by (simp add: word_unat_eq_iff unsigned_ucast_eq unat_of_nat take_bit_eq_mod mod_mod_cancel)

lemma ucast_byte: "(ucast (b::byte) :: go_uint) = of_nat (unat b)"
  by simp

lemma word_push_bit: "push_bit N (of_nat B :: go_uint) = of_nat (B * 2 ^ N)"
  by (simp add: push_bit_eq_mult)

lemma word_merge:
  "Q < 2 ^ N \<Longrightarrow> (of_nat Q :: go_uint) OR push_bit N (of_nat B) = of_nat (Q + B * 2 ^ N)"
  using nat_or_push_bit [of Q N B] of_nat_or_eq [of Q "push_bit N B", where 'a = go_uint]
  by (simp add: of_nat_push_bit)

lemma enc_step_sim:
  assumes "enc_inv Q N"
  shows "enc_step (of_nat Q) (of_nat N) b =
    (case enc_step_n Q N b of (q', nb', ov) \<Rightarrow> (of_nat q', of_nat nb', map_option of_nat ov))"
proof -
  define Q1 where "Q1 = Q + unat b * 2 ^ N"
  from assms have N: "N \<le> 13" and Q: "Q < 2 ^ N" by (simp_all add: enc_inv_def)
  have "unat b \<le> 255" using unat_byte_less [of b] by simp
  with Q have "Q1 < 2 ^ (N + 8)" unfolding Q1_def by (rule shift_in_less)
  also have "(2::nat) ^ (N + 8) \<le> 2 ^ 21" using N by (intro power_increasing) simp_all
  finally have Q1: "Q1 < 2097152" by simp
  have uN: "unat (of_nat N :: go_uint) = N" using N by (intro unat_of_nat64) simp
  have q1: "of_nat Q OR push_bit (unat (of_nat N :: go_uint)) (ucast b) = (of_nat Q1 :: go_uint)"
    using word_merge [OF Q, of "unat b"] by (simp only: uN ucast_byte Q1_def)
  have n1: "(of_nat N :: go_uint) + 8 = of_nat (N + 8)" by simp
  have c1: "(13 < (of_nat (N + 8) :: go_uint)) = (13 < N + 8)"
    using word_less64 [of 13 "N + 8"] N by simp
  have v13: "(of_nat Q1 :: go_uint) AND 8191 = of_nat (Q1 mod 8192)" by (rule word_and_8191)
  have v14: "(of_nat Q1 :: go_uint) AND 16383 = of_nat (Q1 mod 16384)" by (rule word_and_16383)
  have c2: "(88 < (of_nat (Q1 mod 8192) :: go_uint)) = (88 < Q1 mod 8192)"
    using word_less64 [of 88 "Q1 mod 8192"] Q1 by simp
  have d13: "drop_bit 13 (of_nat Q1 :: go_uint) = of_nat (Q1 div 8192)"
    using word_drop_bit [of Q1 13] Q1 by simp
  have d14: "drop_bit 14 (of_nat Q1 :: go_uint) = of_nat (Q1 div 16384)"
    using word_drop_bit [of Q1 14] Q1 by simp
  have s13: "(of_nat (N + 8) :: go_uint) - 13 = of_nat (N + 8 - 13)" if "13 < N + 8"
    using that of_nat_diff [of 13 "N + 8", where 'a = go_uint] by simp
  have s14: "(of_nat (N + 8) :: go_uint) - 14 = of_nat (N + 8 - 14)" if "13 < N + 8"
    using that of_nat_diff [of 14 "N + 8", where 'a = go_uint] by simp
  show ?thesis
    unfolding enc_step_def enc_step_n_def Let_def Q1_def [symmetric]
    by (simp only: q1 n1 c1 v13 v14 c2 d13 d14)
       (simp add: s13 s14 del: of_nat_add of_nat_diff)
qed

section \<open>What Encode writes\<close>

text \<open>
  \<open>Encode enc dst src\<close> writes \<open>encode_syms enc src\<close> at the front of \<open>dst\<close> and
  returns its length; it panics when \<open>dst\<close> is shorter than that, and only then.
\<close>

lemma length_overwrite [simp]:
  "n + length out \<le> length dst \<Longrightarrow> length (overwrite dst n out) = length dst"
  by (simp add: overwrite_def)

lemma overwrite_Nil [simp]: "overwrite dst n [] = dst"
  by (simp add: overwrite_def)

lemma overwrite_append:
  assumes "n + length a + length b \<le> length dst"
  shows "overwrite (overwrite dst n a) (n + length a) b = overwrite dst n (a @ b)"
proof -
  from assms have "min (length dst) n = n" by simp
  then show ?thesis by (simp add: overwrite_def ac_simps)
qed

lemma take_overwrite:
  assumes "n + length out \<le> length dst"
  shows "take (n + length out) (overwrite dst n out) = take n dst @ out"
proof -
  from assms have "min (length dst) n = n" by simp
  then show ?thesis by (simp add: overwrite_def)
qed

lemma put_overwrite: "put dst n c = (if n < length dst then Some (overwrite dst n [c]) else None)"
  by (simp add: put_def overwrite_def upd_conv_take_nth_drop)

lemma length_pair_syms [simp]: "length (pair_syms enc v) = 2"
  by (simp add: pair_syms_def)

lemma length_syms [simp]: "length (syms enc vs) = 2 * length vs"
  by (induction vs) (simp_all add: syms_def)

lemma syms_Cons: "syms enc (v # vs) = pair_syms enc v @ syms enc vs"
  by (simp add: syms_def)

lemma syms_append: "syms enc (vs @ ws) = syms enc vs @ syms enc ws"
  by (simp add: syms_def)

lemma div_91_less: "v \<le> 8280 \<Longrightarrow> v div 91 < (91::nat)"
proof -
  assume "v \<le> 8280"
  then have "v div 91 \<le> 8280 div 91" by (rule div_le_mono)
  then show ?thesis by simp
qed

lemma encode_at_mod:
  assumes "length (encode enc) = 91" "v < 2 ^ 64"
  shows "encode_at enc (of_nat v mod 91) = Some (encode enc ! (v mod 91))"
  using assms by (simp add: encode_at_def word_mod_91)

lemma encode_at_div:
  assumes "length (encode enc) = 91" "v \<le> 8280"
  shows "encode_at enc (of_nat v div 91) = Some (encode enc ! (v div 91))"
proof -
  from assms(2) have "v < 2 ^ 64" by simp
  then have "unat ((of_nat v :: go_uint) div 91) = v div 91" by (rule word_div_91)
  with assms div_91_less [of v] show ?thesis by (simp add: encode_at_def)
qed

lemma put_pair_overwrite:
  assumes "length (encode enc) = 91" "v \<le> 8280"
  shows "put_pair enc dst n (of_nat v) =
    (if n + 2 \<le> length dst then Some (overwrite dst n (pair_syms enc v), n + 2) else None)"
proof -
  from assms(2) have v: "v < 2 ^ 64" by simp
  have "overwrite (overwrite dst n [c]) (n + 1) [c'] = overwrite dst n [c, c']"
    if "n + 2 \<le> length dst" for c c'
    using overwrite_append [of n "[c]" "[c']" dst] that by simp
  then show ?thesis
    unfolding put_pair_def
    by (simp add: encode_at_mod [OF assms(1) v] encode_at_div [OF assms] put_overwrite
        pair_syms_def)
qed

lemma Encode_loop_spec:
  assumes "length (encode enc) = 91" "enc_inv Q N" "enc_vals Q N src = (vs, Qf, Nf)"
    "n \<le> length dst"
  shows "Encode_loop enc dst n (of_nat Q) (of_nat N) src =
    (if n + 2 * length vs \<le> length dst
     then Some (overwrite dst n (syms enc vs), n + 2 * length vs, of_nat Qf, of_nat Nf)
     else None)"
  using assms(2,3,4)
proof (induction src arbitrary: Q N vs dst n)
  case Nil
  then show ?case by (simp add: syms_def)
next
  case (Cons b src)
  note sim = enc_step_sim [OF Cons.prems(1), of b]
  show ?case
  proof (cases "N + 8 \<le> 13")
    case True
    note keep = enc_step_n_keep [OF Cons.prems(1) True, of b]
    from Cons.prems(2) keep(1)
    have run': "enc_vals (Q + unat b * 2 ^ N) (N + 8) src = (vs, Qf, Nf)" by simp
    from sim keep(1)
    have "enc_step (of_nat Q) (of_nat N) b = (of_nat (Q + unat b * 2 ^ N), of_nat (N + 8), None)"
      by simp
    then show ?thesis using Cons.IH [OF keep(2) run' Cons.prems(3)] by simp
  next
    case False
    then have gt: "13 < N + 8" by simp
    from Cons.prems(1) gt obtain v q' where
      step: "enc_step_n Q N b = (q', N + 8 - width v, Some v)"
      and v: "v \<le> 8280" and inv': "enc_inv q' (N + 8 - width v)"
      by (rule enc_step_n_take)
    obtain vs' where run': "enc_vals q' (N + 8 - width v) src = (vs', Qf, Nf)"
      and vs: "vs = v # vs'"
      using Cons.prems(2) step by (auto split: prod.splits)
    from sim step
    have st: "enc_step (of_nat Q) (of_nat N) b = (of_nat q', of_nat (N + 8 - width v), Some (of_nat v))"
      by simp
    note pp = put_pair_overwrite [OF assms(1) v, of dst n]
    show ?thesis
    proof (cases "n + 2 \<le> length dst")
      case False
      with st pp show ?thesis by (simp add: vs)
    next
      case True
      then have len: "length (overwrite dst n (pair_syms enc v)) = length dst" by simp
      with True have room: "n + 2 \<le> length (overwrite dst n (pair_syms enc v))" by simp
      have ow: "overwrite (overwrite dst n (pair_syms enc v)) (n + 2) (syms enc vs') =
          overwrite dst n (syms enc vs)" if "n + 2 * length vs \<le> length dst"
        using overwrite_append [of n "pair_syms enc v" "syms enc vs'" dst] that
        by (simp add: vs syms_Cons)
      from st pp True
      have "Encode_loop enc dst n (of_nat Q) (of_nat N) (b # src) =
          Encode_loop enc (overwrite dst n (pair_syms enc v)) (n + 2) (of_nat q')
            (of_nat (N + 8 - width v)) src"
        by simp
      also have "\<dots> = (if n + 2 * length vs \<le> length dst
          then Some (overwrite dst n (syms enc vs), n + 2 * length vs, of_nat Qf, of_nat Nf)
          else None)"
        using Cons.IH [OF inv' run' room] ow
        by (simp add: len vs)
      finally show ?thesis .
    qed
  qed
qed

lemma length_flush_syms:
  "length (flush_syms enc q nb) = (if 0 < nb then (if 7 < nb \<or> 90 < q then 2 else 1) else 0)"
  by (simp add: flush_syms_def)

lemma Encode_spec:
  assumes "length (encode enc) = 91"
  shows "Encode enc dst src =
    (if length (encode_syms enc src) \<le> length dst
     then Some (overwrite dst 0 (encode_syms enc src), length (encode_syms enc src))
     else None)"
proof -
  obtain vs Qf Nf where run: "enc_vals 0 0 src = (vs, Qf, Nf)"
    by (cases "enc_vals 0 0 src") auto
  note E = enc_vals_inv [OF enc_inv_0 run]
  from E(1) have Nf: "Nf \<le> 13" and Qf: "Qf < 2 ^ Nf" by (simp_all add: enc_inv_def)
  have "(2::nat) ^ Nf \<le> 2 ^ 13" using Nf by (intro power_increasing) simp_all
  with Qf have Qf': "Qf < 8192" by simp
  then have Qf64: "Qf < 2 ^ 64" and Qf8280: "Qf \<le> 8280" by simp_all
  have c0: "(0 < (of_nat Nf :: go_uint)) = (0 < Nf)"
    using word_less64 [of 0 Nf] Nf by simp
  have c7: "(7 < (of_nat Nf :: go_uint)) = (7 < Nf)"
    using word_less64 [of 7 Nf] Nf by simp
  have c90: "(90 < (of_nat Qf :: go_uint)) = (90 < Qf)"
    using word_less64 [of 90 Qf] Qf' by simp
  note loop = Encode_loop_spec [OF assms enc_inv_0 run, of 0 dst, simplified]
  have syms: "encode_syms enc src = syms enc vs @ flush_syms enc Qf Nf"
    by (simp add: encode_syms_def run)
  show ?thesis
  proof (cases "2 * length vs \<le> length dst")
    case False
    with loop show ?thesis by (simp add: Encode_def syms)
  next
    case True
    note at1 = encode_at_mod [OF assms Qf64]
    note at2 = encode_at_div [OF assms Qf8280]
    have ow1: "overwrite (overwrite dst 0 (syms enc vs)) (2 * length vs) [c] =
        overwrite dst 0 (syms enc vs @ [c])" if "2 * length vs + 1 \<le> length dst" for c
      using overwrite_append [of 0 "syms enc vs" "[c]" dst] that by simp
    have ow2: "overwrite (overwrite dst 0 (syms enc vs @ [c])) (Suc (2 * length vs)) [c'] =
        overwrite dst 0 (syms enc vs @ [c, c'])" if "Suc (Suc (2 * length vs)) \<le> length dst" for c c'
      using overwrite_append [of 0 "syms enc vs @ [c]" "[c']" dst] that by simp
    from True loop show ?thesis
      by (simp add: Encode_def syms c0 c7 c90 at1 at2 put_overwrite flush_syms_def pair_syms_def
          ow1 ow2)
  qed
qed

section \<open>The length of the encoded text\<close>

text \<open>
  The rounding of \<open>float64\<close>, the lengths \<open>n\<close> for which \<open>EncodedLen n\<close> is the
  exact ceiling of \<open>n * 16 / 13\<close>, and the bound of the encoded text by that ceiling.
\<close>

lemma NewEncoding_length:
  assumes "NewEncoding alphabet = Inr enc"
  shows "length alphabet = 91" and "length (encode enc) = 91" and "encode enc = alphabet"
proof -
  from assms show len: "length alphabet = 91"
    by (simp add: NewEncoding_def split: if_splits)
  from assms have "encode enc = copy (replicate 91 0) alphabet"
    by (auto simp: NewEncoding_def split: if_splits)
  with len show eq: "encode enc = alphabet" by (simp add: copy_def)
  with len show "length (encode enc) = 91" by simp
qed

lemma round_even_of_int [simp]: "round_even (of_int m) = m"
  by (simp add: round_even_def)

lemma round_even_near: "\<bar>of_int (round_even x) - x\<bar> \<le> 1 / 2"
  unfolding round_even_def Let_def by (auto simp: abs_if) linarith+

lemma ulp_pos: "0 < ulp x"
  by (simp add: ulp_def Let_def)

lemma round_f64_near: "\<bar>round_f64 x - x\<bar> \<le> ulp x / 2"
proof (cases "x = 0")
  case True
  then show ?thesis using ulp_pos [of 0] by (simp add: round_f64_def)
next
  case False
  define u where "u = ulp x"
  define m :: real where "m = of_int (round_even (x / u))"
  have u: "0 < u" unfolding u_def by (rule ulp_pos)
  have "\<bar>m - x / u\<bar> \<le> 1 / 2" unfolding m_def by (rule round_even_near)
  then have "\<bar>m - x / u\<bar> * u \<le> 1 / 2 * u" using u by (intro mult_right_mono) simp_all
  moreover have "\<bar>m - x / u\<bar> * u = \<bar>(m - x / u) * u\<bar>" using u by (simp add: abs_mult)
  moreover have "(m - x / u) * u = m * u - x" using u by (simp add: left_diff_distrib)
  ultimately have "\<bar>m * u - x\<bar> \<le> u / 2" by simp
  with False show ?thesis by (simp add: round_f64_def u_def m_def)
qed

lemma ulp_eq: "ulp x = 2 ^ floorlog 2 (nat \<lfloor>x\<rfloor>) / 2 ^ 53"
proof (cases "53 \<le> floorlog 2 (nat \<lfloor>x\<rfloor>)")
  case True
  then show ?thesis by (simp add: ulp_def power_diff)
next
  case False
  then have "53 - floorlog 2 (nat \<lfloor>x\<rfloor>) \<le> 53" "floorlog 2 (nat \<lfloor>x\<rfloor>) \<le> 53" by simp_all
  then have "(2::real) ^ (53 - floorlog 2 (nat \<lfloor>x\<rfloor>)) = 2 ^ 53 / 2 ^ floorlog 2 (nat \<lfloor>x\<rfloor>)"
    by (simp add: power_diff)
  with False show ?thesis by (simp add: ulp_def)
qed

lemma ulp_le:
  assumes "0 \<le> x" "x < 2 ^ 50"
  shows "ulp x \<le> 1 / 8"
proof -
  from assms have "nat \<lfloor>x\<rfloor> < 2 ^ 50"
    by (metis floor_less_iff nat_less_iff of_int_numeral of_int_power of_nat_numeral of_nat_power zero_le_floor)
  then have "floorlog 2 (nat \<lfloor>x\<rfloor>) \<le> 50" by (intro floorlog_leI) simp_all
  then have "(2::real) ^ floorlog 2 (nat \<lfloor>x\<rfloor>) \<le> 2 ^ 50" by (intro power_increasing) simp_all
  then show ?thesis by (simp add: ulp_eq)
qed

lemma scale_cancel:
  fixes K a b c :: real
  assumes "0 < a" "0 < b" "0 < c"
  shows "K * c / (b * c / (a * b)) = K * a" and "K * a * (b * c / (a * b)) = K * c"
  using assms by (simp_all add: field_simps)

lemma round_f64_exact:
  assumes "k < 2 ^ 53"
  shows "round_f64 (real (k * 2 ^ j)) = real (k * 2 ^ j)"
proof (cases "k = 0")
  case True
  then show ?thesis by (simp add: round_f64_def)
next
  case False
  define e where "e = floorlog 2 k"
  define a :: real where "a = 2 ^ (53 - e)"
  define b :: real where "b = 2 ^ e"
  define c :: real where "c = 2 ^ j"
  have pos: "0 < a" "0 < b" "0 < c" by (simp_all add: a_def b_def c_def)
  from assms have e: "e \<le> 53" unfolding e_def by (intro floorlog_leI) simp_all
  then have ab: "2 ^ 53 = a * b" unfolding a_def b_def by (simp only: power_add [symmetric]) simp
  from False have fl: "floorlog 2 (k * 2 ^ j) = e + j" unfolding e_def by simp
  have u: "ulp (real (k * 2 ^ j)) = b * c / (a * b)"
    by (simp only: ulp_eq floor_of_nat nat_int fl power_add b_def c_def ab [unfolded b_def])
  have x: "real (k * 2 ^ j) = real k * c" by (simp add: c_def)
  have "real (k * 2 ^ j) / ulp (real (k * 2 ^ j)) = real k * a"
    unfolding u by (simp only: x scale_cancel(1) [OF pos])
  also have "\<dots> = of_int (int (k * 2 ^ (53 - e)))" by (simp add: a_def)
  finally have q: "real (k * 2 ^ j) / ulp (real (k * 2 ^ j)) = of_int (int (k * 2 ^ (53 - e)))" .
  have nz: "real (k * 2 ^ j) \<noteq> 0" using False by simp
  have "round_f64 (real (k * 2 ^ j)) = of_int (int (k * 2 ^ (53 - e))) * (b * c / (a * b))"
    using nz by (simp only: round_f64_def u q [unfolded u] round_even_of_int if_False)
  also have "of_int (int (k * 2 ^ (53 - e))) = real k * a" by (simp add: a_def)
  also have "real k * a * (b * c / (a * b)) = real k * c" by (rule scale_cancel(2) [OF pos])
  finally show ?thesis by (simp only: x)
qed

lemma ceiling_16_13: "nat \<lceil>real n * 16 / 13\<rceil> = (16 * n + 12) div 13"
proof -
  define z where "z = (16 * n + 12) div 13"
  have "13 * z + (16 * n + 12) mod 13 = 16 * n + 12"
    unfolding z_def by (rule mult_div_mod_eq)
  moreover have "(16 * n + 12) mod 13 < 13" by simp
  ultimately have lo: "16 * n \<le> 13 * z" and hi: "13 * z < 16 * n + 13" by linarith+
  have "\<lceil>real n * 16 / 13\<rceil> = int z"
  proof (rule ceiling_unique)
    from hi have "real (13 * z) < real (16 * n + 13)" by (simp only: of_nat_less_iff)
    then show "of_int (int z) - 1 < real n * 16 / 13" by simp
    from lo have "real (16 * n) \<le> real (13 * z)" by (simp only: of_nat_le_iff)
    then show "real n * 16 / 13 \<le> of_int (int z)" by simp
  qed
  then show ?thesis by (simp add: z_def)
qed

lemma EncodedLen_exact:
  assumes "n < 13 * 2 ^ 46"
  shows "EncodedLen n = (16 * n + 12) div 13"
proof -
  from assms have n53: "n < 2 ^ 53" by simp
  have r1: "round_f64 (real n) = real n" using round_f64_exact [OF n53, of 0] by simp
  have r2: "round_f64 (real n * 16) = real (16 * n)"
    using round_f64_exact [OF n53, of 4] by (simp add: mult.commute)
  define y where "y = real (16 * n) / 13"
  define z where "z = (16 * n + 12) div 13"
  have "13 * z + (16 * n + 12) mod 13 = 16 * n + 12"
    unfolding z_def by (rule mult_div_mod_eq)
  moreover have "(16 * n + 12) mod 13 < 13" by simp
  ultimately have lo: "16 * n \<le> 13 * z" and hi: "13 * z < 16 * n + 13" by linarith+
  have "\<lceil>round_f64 y\<rceil> = int z"
  proof (cases "16 * n = 13 * z")
    case True
    then have "real (16 * n) = real (13 * z)" by (simp only:)
    then have yz: "y = real z" by (simp add: y_def)
    from True assms have "z < 2 ^ 53" by simp
    from round_f64_exact [OF this, of 0] have "round_f64 y = real z" by (simp add: yz)
    then show ?thesis by simp
  next
    case False
    with lo hi have "16 * n + 1 \<le> 13 * z" "13 * z \<le> 16 * n + 12" by linarith+
    then have "real (16 * n + 1) \<le> real (13 * z)" "real (13 * z) \<le> real (16 * n + 12)"
      by (simp_all only: of_nat_le_iff)
    then have y1: "y \<le> real z - 1 / 13" and y2: "real z - 12 / 13 \<le> y"
      by (simp_all add: y_def field_simps)
    have y0: "0 \<le> y" by (simp add: y_def)
    from assms have "real (16 * n) < real (13 * 2 ^ 50)" by (simp only: of_nat_less_iff) simp
    then have "y < 2 ^ 50" by (simp add: y_def)
    from ulp_le [OF y0 this] round_f64_near [of y] have near: "\<bar>round_f64 y - y\<bar> \<le> 1 / 16" by simp
    show ?thesis
    proof (rule ceiling_unique)
      from near have "y - 1 / 16 \<le> round_f64 y" "round_f64 y \<le> y + 1 / 16" by linarith+
      with y1 y2 show "of_int (int z) - 1 < round_f64 y" "round_f64 y \<le> of_int (int z)"
        by simp_all
    qed
  qed
  then show ?thesis by (simp add: EncodedLen_def r1 r2 y_def z_def)
qed

lemma encode_syms_length:
  "13 * length (encode_syms enc src) < 16 * length src + 13"
proof -
  obtain vs Qf Nf where run: "enc_vals 0 0 src = (vs, Qf, Nf)"
    by (cases "enc_vals 0 0 src") auto
  note E = enc_vals_inv [OF enc_inv_0 run]
  from E(1) have Qf: "Qf < 2 ^ Nf" by (simp add: enc_inv_def)
  from E(3) have bits: "8 * length src = widths vs + Nf" by simp
  have len: "length (encode_syms enc src) = 2 * length vs + length (flush_syms enc Qf Nf)"
    by (simp add: encode_syms_def run)
  have "7 \<le> Nf" if "90 < Qf"
  proof (rule ccontr)
    assume "\<not> 7 \<le> Nf"
    then have "(2::nat) ^ Nf \<le> 2 ^ 6" by (intro power_increasing) simp_all
    with Qf that show False by simp
  qed
  then have "13 * length (flush_syms enc Qf Nf) < 2 * Nf + 13"
    by (auto simp: length_flush_syms)
  with widths_ge [of vs] bits len show ?thesis by linarith
qed

lemma encode_syms_le: "length (encode_syms enc src) \<le> (16 * length src + 12) div 13"
proof -
  have "13 * length (encode_syms enc src) \<le> 16 * length src + 12"
    using encode_syms_length [of enc src] by simp
  then have "13 * length (encode_syms enc src) div 13 \<le> (16 * length src + 12) div 13"
    by (rule div_le_mono)
  then show ?thesis by simp
qed

lemma encode_syms_le_EncodedLen:
  "length src < 13 * 2 ^ 46 \<Longrightarrow> length (encode_syms enc src) \<le> EncodedLen (length src)"
  using encode_syms_le [of enc src] by (simp only: EncodedLen_exact)

lemma EncodeToString_spec:
  assumes "length (encode enc) = 91" "length src < 13 * 2 ^ 46"
  shows "EncodeToString enc src = Some (encode_syms enc src)"
proof -
  let ?buf = "replicate (EncodedLen (length src)) 0 :: byte list"
  have room: "length (encode_syms enc src) \<le> length ?buf"
    using encode_syms_le_EncodedLen [OF assms(2), of enc] by simp
  then have "take (length (encode_syms enc src)) (overwrite ?buf 0 (encode_syms enc src))
      = encode_syms enc src"
    using take_overwrite [of 0 "encode_syms enc src" ?buf] by simp
  with room show ?thesis
    by (simp add: EncodeToString_def Encode_spec [OF assms(1)])
qed

lemma floorlog_51: "floorlog 2 1125899906842635 = 51"
proof (rule antisym)
  show "floorlog 2 1125899906842635 \<le> 51" by (intro floorlog_leI) simp_all
  show "51 \<le> floorlog 2 1125899906842635" by (intro floorlog_geI) simp_all
qed

lemma EncodedLen_rounds_down: "EncodedLen 914793674309641 = 1125899906842635"
proof -
  have n53: "(914793674309641::nat) < 2 ^ 53" by simp
  have r1: "round_f64 (real 914793674309641) = real 914793674309641"
    using round_f64_exact [OF n53, of 0] by simp
  have r2: "round_f64 (real 914793674309641 * 16) = 14636698788954256"
    using round_f64_exact [OF n53, of 4] by simp
  have fl: "\<lfloor>14636698788954256 / 13 :: real\<rfloor> = 1125899906842635" by simp
  have u: "ulp (14636698788954256 / 13) = 1 / 4"
    by (simp add: ulp_def fl floorlog_51)
  have fl4: "\<lfloor>14636698788954256 / 13 / (1 / 4) :: real\<rfloor> = 4503599627370540" by simp
  have re: "round_even (14636698788954256 / 13 / (1 / 4)) = 4503599627370540"
    unfolding round_even_def fl4 Let_def by simp
  have r3: "round_f64 (14636698788954256 / 13) = 1125899906842635"
    unfolding round_f64_def u re by simp
  show ?thesis unfolding EncodedLen_def r1 r2 r3 by simp
qed

text \<open>
  An input of bytes \<open>0xff\<close> only: every value taken off the queue is \<open>8191\<close>, on 13
  bits, so that the encoded text has two symbols for every 13 bits of the input.
\<close>

lemma ones_shift: "2 ^ nb - 1 + unat (0xff :: byte) * 2 ^ nb = (2::nat) ^ (nb + 8) - 1"
proof -
  have "(1::nat) \<le> 2 ^ nb" by simp
  then show ?thesis by (simp add: power_add)
qed

lemma enc_step_n_ones_take:
  assumes "6 \<le> nb"
  shows "enc_step_n (2 ^ nb - 1) nb 0xff = (2 ^ (nb - 5) - 1, nb - 5, Some 8191)"
proof -
  define a :: nat where "a = 2 ^ (nb - 5)"
  have a: "1 \<le> a" by (simp add: a_def)
  from assms have "nb + 8 = (nb - 5) + 13" by simp
  then have "(2::nat) ^ (nb + 8) = a * 8192" by (simp only: power_add a_def) simp
  with a have q: "(2::nat) ^ (nb + 8) - 1 = (a - 1) * 8192 + 8191" by (simp add: algebra_simps)
  have m: "((a - 1) * 8192 + 8191) mod 8192 = 8191" by simp
  have d: "((a - 1) * 8192 + 8191) div 8192 = a - 1" by simp
  from assms show ?thesis
    unfolding enc_step_n_def Let_def ones_shift q by (simp add: a_def)
qed

lemma enc_step_n_ones_keep:
  assumes "nb \<le> 5"
  shows "enc_step_n (2 ^ nb - 1) nb 0xff = (2 ^ (nb + 8) - 1, nb + 8, None)"
  using assms unfolding enc_step_n_def Let_def ones_shift by simp

lemma enc_vals_ones:
  assumes "nb \<le> 13" "1 \<le> nb + 8 * m"
  shows "enc_vals (2 ^ nb - 1) nb (replicate m 0xff) =
    (replicate ((nb + 8 * m - 1) div 13) 8191,
     2 ^ ((nb + 8 * m - 1) mod 13 + 1) - 1, (nb + 8 * m - 1) mod 13 + 1)"
  using assms
proof (induction m arbitrary: nb)
  case 0
  then show ?case by simp
next
  case (Suc m)
  show ?case
  proof (cases "6 \<le> nb")
    case True
    with Suc.prems have p: "nb - 5 \<le> 13" "1 \<le> nb - 5 + 8 * m" by simp_all
    from True have t: "nb + 8 * Suc m - 1 = (nb - 5 + 8 * m - 1) + 13" by simp
    have dm: "(nb + 8 * Suc m - 1) div 13 = Suc ((nb - 5 + 8 * m - 1) div 13)"
      "(nb + 8 * Suc m - 1) mod 13 = (nb - 5 + 8 * m - 1) mod 13"
      by (simp_all only: t) simp_all
    show ?thesis
      by (simp only: replicate_Suc enc_vals.simps enc_step_n_ones_take [OF True]
          prod.case option.case Suc.IH [OF p] dm) simp
  next
    case False
    then have k: "nb \<le> 5" by simp
    then have p: "nb + 8 \<le> 13" "1 \<le> nb + 8 + 8 * m" by simp_all
    have t: "nb + 8 * Suc m = nb + 8 + 8 * m" by simp
    show ?thesis
      by (simp only: replicate_Suc enc_vals.simps enc_step_n_ones_keep [OF k]
          prod.case option.case Suc.IH [OF p] t) simp
  qed
qed

lemma encode_syms_ones_length:
  assumes "1 \<le> m"
  shows "length (encode_syms enc (replicate m 0xff)) =
    2 * ((8 * m - 1) div 13) + (if 6 \<le> (8 * m - 1) mod 13 then 2 else 1)"
proof -
  from assms have "1 \<le> 0 + 8 * m" by simp
  from enc_vals_ones [OF _ this] have run: "enc_vals 0 0 (replicate m 0xff) =
    (replicate ((8 * m - 1) div 13) 8191,
     2 ^ ((8 * m - 1) mod 13 + 1) - 1, (8 * m - 1) mod 13 + 1)" by simp
  define r where "r = (8 * m - 1) mod 13"
  have big: "90 < (2::nat) ^ (r + 1) - 1" if "6 \<le> r"
  proof -
    from that have "(2::nat) ^ 7 \<le> 2 ^ (r + 1)" by (intro power_increasing) simp_all
    then show ?thesis by simp
  qed
  have small: "\<not> 90 < (2::nat) ^ (r + 1) - 1" if "\<not> 6 \<le> r"
  proof -
    from that have "(2::nat) ^ (r + 1) \<le> 2 ^ 6" by (intro power_increasing) simp_all
    then show ?thesis by simp
  qed
  have "length (flush_syms enc (2 ^ (r + 1) - 1) (r + 1)) = (if 6 \<le> r then 2 else 1)"
    using big small by (auto simp: flush_syms_def)
  then show ?thesis by (simp add: encode_syms_def run r_def)
qed

lemma NewEncoding_encodeStd: "\<exists>enc. NewEncoding encodeStd = Inr enc"
  by (simp add: NewEncoding_def encodeStd_def)

lemma StdEncoding_length: "length (encode (projr StdEncoding)) = 91"
proof -
  from NewEncoding_encodeStd obtain enc where enc: "NewEncoding encodeStd = Inr enc" ..
  from NewEncoding_length(2) [OF enc] enc show ?thesis by (simp add: StdEncoding_def)
qed

text \<open>
  C3. The number of symbols that \<open>Encode\<close> writes for \<open>n\<close> bytes should be at most
  \<open>EncodedLen n\<close>, and \<open>EncodedLen n\<close> should be the ceiling of \<open>n * 16 / 13\<close>, for
  every \<open>n\<close>; the comment of \<open>EncodedLen\<close> in the source promises an upper bound of the
  encoded length. The code aims at that ceiling with
  \<open>math.Ceil(float64(n) * 16.0 / 13.0)\<close> and misses it through the rounding of the
  quotient. The quotient is within \<open>1 / 16\<close> of the exact one as long as it is below
  \<open>2 ^ 50\<close>, which is \<open>n < 13 * 2 ^ 46\<close>, and its ceiling is then the exact ceiling
  (\<open>EncodedLen_exact\<close>). Above, the values of \<open>float64\<close> are \<open>1 / 4\<close> apart, and a
  quotient \<open>k + 1 / 13\<close> is rounded to \<open>k\<close>. The first such \<open>n\<close> is
  \<open>13 * 2 ^ 46 + 9 = 914793674309641\<close>, where \<open>16 * n / 13\<close> is
  \<open>1125899906842635 + 1 / 13\<close>: \<open>EncodedLen n\<close> is \<open>1125899906842635\<close>, one less
  than the ceiling of \<open>n * 16 / 13\<close>.
\<close>

theorem EncodedLen_below_ceiling:
  "EncodedLen 914793674309641 = 1125899906842635
   \<and> \<lceil>real 914793674309641 * 16 / 13\<rceil> = 1125899906842636
   \<and> int (EncodedLen 914793674309641) < \<lceil>real 914793674309641 * 16 / 13\<rceil>"
  by (simp add: EncodedLen_rounds_down)

text \<open>
  That ceiling is needed: the encoded text of \<open>914793674309641\<close> bytes \<open>0xff\<close> has
  \<open>1125899906842636\<close> symbols, so that \<open>Encode\<close> of them into a buffer of
  \<open>EncodedLen 914793674309641\<close> bytes would write past the end of the buffer.
\<close>

lemma Encode_ones_past_EncodedLen:
  "Encode (projr StdEncoding) (replicate (EncodedLen 914793674309641) 0)
         (replicate 914793674309641 0xff) = None
   \<and> Encode (projr StdEncoding) (replicate 1125899906842636 0)
         (replicate 914793674309641 0xff)
       = Some (encode_syms (projr StdEncoding) (replicate 914793674309641 0xff),
               1125899906842636)"
proof -
  let ?s = "encode_syms (projr StdEncoding) (replicate 914793674309641 0xff)"
  have len: "length ?s = 1125899906842636"
    by (simp add: encode_syms_ones_length)
  have 2: "Encode (projr StdEncoding) (replicate (EncodedLen 914793674309641) 0)
      (replicate 914793674309641 0xff) = None"
    using len by (simp add: Encode_spec [OF StdEncoding_length] EncodedLen_rounds_down)
  have "overwrite (replicate 1125899906842636 0) 0 ?s = ?s"
    using len by (simp add: overwrite_def)
  then have 3: "Encode (projr StdEncoding) (replicate 1125899906842636 0)
      (replicate 914793674309641 0xff) = Some (?s, 1125899906842636)"
    using len by (simp add: Encode_spec [OF StdEncoding_length])
  from 2 3 show ?thesis by simp
qed

text \<open>
  Where \<open>EncodedLen\<close> is exact. For every input \<open>src\<close> of \<open>n\<close> bytes, the count that
  \<open>Encode\<close> returns is at most the ceiling of \<open>n * 16 / 13\<close>. For \<open>n < 13 * 2 ^ 46\<close>,
  \<open>EncodedLen n\<close> is that ceiling, which is \<open>(16 * n + 12) div 13\<close>; so the count is at
  most \<open>EncodedLen n\<close>, and \<open>Encode\<close> returns whenever the buffer has at least
  \<open>EncodedLen n\<close> bytes.
\<close>

theorem Encode_length_le_EncodedLen:
  assumes "NewEncoding alphabet = Inr enc"
  shows "(\<forall>dst dst' n. Encode enc dst src = Some (dst', n) \<longrightarrow>
            int n \<le> \<lceil>real (length src) * 16 / 13\<rceil>)
    \<and> (length src < 13 * 2 ^ 46 \<longrightarrow>
          int (EncodedLen (length src)) = \<lceil>real (length src) * 16 / 13\<rceil>
        \<and> EncodedLen (length src) = (16 * length src + 12) div 13
        \<and> (\<forall>dst dst' n. Encode enc dst src = Some (dst', n) \<longrightarrow> n \<le> EncodedLen (length src))
        \<and> (\<forall>dst. EncodedLen (length src) \<le> length dst \<longrightarrow>
              (\<exists>dst' n. Encode enc dst src = Some (dst', n) \<and> n \<le> EncodedLen (length src))))"
proof -
  note wf = NewEncoding_length(2) [OF assms]
  note bound = encode_syms_le [of enc src]
  have ceil: "\<lceil>real (length src) * 16 / 13\<rceil> = int ((16 * length src + 12) div 13)"
    using ceiling_16_13 [of "length src"] by linarith
  have 0: "int n \<le> \<lceil>real (length src) * 16 / 13\<rceil>"
    if "Encode enc dst src = Some (dst', n)" for dst dst' n
    using that bound by (simp add: Encode_spec [OF wf] ceil split: if_splits)
  have 1: "n \<le> (16 * length src + 12) div 13"
    if "Encode enc dst src = Some (dst', n)" for dst dst' n
    using that bound by (simp add: Encode_spec [OF wf] split: if_splits)
  have 2: "\<exists>dst' n. Encode enc dst src = Some (dst', n) \<and> n \<le> (16 * length src + 12) div 13"
    if "(16 * length src + 12) div 13 \<le> length dst" for dst
    using that bound by (simp add: Encode_spec [OF wf])
  have 3: "int (EncodedLen (length src)) = \<lceil>real (length src) * 16 / 13\<rceil>
      \<and> EncodedLen (length src) = (16 * length src + 12) div 13
      \<and> (\<forall>dst dst' n. Encode enc dst src = Some (dst', n) \<longrightarrow> n \<le> EncodedLen (length src))
      \<and> (\<forall>dst. EncodedLen (length src) \<le> length dst \<longrightarrow>
            (\<exists>dst' n. Encode enc dst src = Some (dst', n) \<and> n \<le> EncodedLen (length src)))"
    if "length src < 13 * 2 ^ 46"
    using 1 2 by (simp only: EncodedLen_exact [OF that] ceil) blast
  from 0 3 show ?thesis by blast
qed

theorem Encode_length_le_EncodedLen_witness:
  "\<exists>enc. NewEncoding encodeStd = Inr enc
     \<and> length [0x74, 0x65, 0x73 :: byte] < 13 * 2 ^ 46
     \<and> EncodedLen (length [0x74, 0x65, 0x73 :: byte]) \<le> length (replicate 4 (0 :: byte))
     \<and> (\<exists>dst' n. Encode enc (replicate 4 0) [0x74, 0x65, 0x73] = Some (dst', n)
           \<and> n \<le> EncodedLen (length [0x74, 0x65, 0x73 :: byte]))
     \<and> EncodedLen (length [0x74, 0x65, 0x73 :: byte]) = 4"
proof -
  from NewEncoding_encodeStd obtain enc where enc: "NewEncoding encodeStd = Inr enc" ..
  define src where "src = [0x74, 0x65, 0x73 :: byte]"
  have small: "length src < 13 * 2 ^ 46" by (simp add: src_def)
  have len: "EncodedLen (length src) = 4"
    using EncodedLen_exact [OF small] by (simp add: src_def)
  have room: "EncodedLen (length src) \<le> length (replicate 4 (0 :: byte))"
    by (simp only: len) simp
  from Encode_length_le_EncodedLen [OF enc, of src] small room
  have "\<exists>dst' n. Encode enc (replicate 4 0) src = Some (dst', n) \<and> n \<le> EncodedLen (length src)"
    by blast
  with enc small len room show ?thesis unfolding src_def by blast
qed

section \<open>What Decode writes\<close>

text \<open>
  The draining loop writes the whole bytes of the queue, lowest first. On the symbols
  that \<open>Encode\<close> wrote for \<open>src\<close>, with a table that inverts the alphabet, \<open>Decode\<close>
  writes \<open>src\<close>.
\<close>

lemma drain_while_spec:
  assumes "Q < 2 ^ 64" "N < 2 ^ 64" "n \<le> length dst"
  shows "drain_while dst n (of_nat Q) (of_nat N) =
    (if n + N div 8 \<le> length dst
     then Some (overwrite dst n (le_bytes (N div 8) Q), n + N div 8,
                of_nat (Q div 256 ^ (N div 8)), of_nat (N mod 8))
     else None)"
  using assms
proof (induction "N div 8" arbitrary: Q N dst n)
  case 0
  then have N: "N \<le> 7" by simp
  from 0 have c: "\<not> 7 < (of_nat N :: go_uint)"
    using word_less64 [of 7 N] by simp
  from N have "N mod 8 = N" by simp
  with 0 c show ?case by (subst drain_while.simps) simp
next
  case (Suc j)
  then have N: "8 \<le> N" and j: "j = (N - 8) div 8" by simp_all
  from Suc.prems have c: "7 < (of_nat N :: go_uint)"
    using word_less64 [of 7 N] N by simp
  have sub: "(of_nat N :: go_uint) - 8 = of_nat (N - 8)"
    using of_nat_diff [of 8 N, where 'a = go_uint] N by simp
  have shr: "drop_bit 8 (of_nat Q :: go_uint) = of_nat (Q div 256)"
    using word_drop_bit [OF Suc.prems(1), of 8] by simp
  have Q': "Q div 256 < 2 ^ 64" using Suc.prems(1) by (rule le_less_trans [OF div_le_dividend])
  have N': "N - 8 < 2 ^ 64" using Suc.prems(2) by simp
  have unf: "drain_while dst n (of_nat Q) (of_nat N) =
      (case put dst n (of_nat Q) of None \<Rightarrow> None
       | Some dst' \<Rightarrow> drain_while dst' (n + 1) (of_nat (Q div 256)) (of_nat (N - 8)))"
    using c by (subst drain_while.simps) (simp add: sub shr ucast_of_nat_byte split: option.splits)
  show ?case
  proof (cases "n < length dst")
    case False
    with unf Suc.hyps(2) show ?thesis by (simp add: put_overwrite)
  next
    case True
    then have room: "n + 1 \<le> length (overwrite dst n [of_nat Q])" by simp
    have ow: "overwrite (overwrite dst n [of_nat Q]) (n + 1) (le_bytes j (Q div 256)) =
        overwrite dst n (le_bytes (Suc j) Q)" if "n + Suc j \<le> length dst"
      using overwrite_append [of n "[of_nat Q]" "le_bytes j (Q div 256)" dst] that by simp
    have dv: "Q div 256 div 256 ^ j = Q div 256 ^ Suc j"
      by (simp add: div_mult2_eq)
    have md: "(N - 8) mod 8 = N mod 8" using N by (simp add: le_mod_geq)
    from True unf have "drain_while dst n (of_nat Q) (of_nat N) =
        drain_while (overwrite dst n [of_nat Q]) (n + 1) (of_nat (Q div 256)) (of_nat (N - 8))"
      by (simp add: put_overwrite)
    also note Suc.hyps(1) [OF j Q' N' room]
    finally show ?thesis
      using True ow by (simp add: Suc.hyps(2) [symmetric] j [symmetric] dv md)
  qed
qed

lemma drain_spec:
  assumes "Q < 2 ^ 64" "N < 2 ^ 64" "8 \<le> N" "n \<le> length dst"
  shows "drain dst n (of_nat Q) (of_nat N) =
    (if n + N div 8 \<le> length dst
     then Some (overwrite dst n (le_bytes (N div 8) Q), n + N div 8,
                of_nat (Q div 256 ^ (N div 8)), of_nat (N mod 8))
     else None)"
proof -
  have sub: "(of_nat N :: go_uint) - 8 = of_nat (N - 8)"
    using of_nat_diff [of 8 N, where 'a = go_uint] assms(3) by simp
  have shr: "drop_bit 8 (of_nat Q :: go_uint) = of_nat (Q div 256)"
    using word_drop_bit [OF assms(1), of 8] by simp
  have Q': "Q div 256 < 2 ^ 64" using assms(1) by (rule le_less_trans [OF div_le_dividend])
  have N': "N - 8 < 2 ^ 64" using assms(2) by simp
  obtain j where j: "N div 8 = Suc j" "j = (N - 8) div 8"
    using assms(3) by (cases "N div 8") simp_all
  have unf: "drain dst n (of_nat Q) (of_nat N) =
      (case put dst n (of_nat Q) of None \<Rightarrow> None
       | Some dst' \<Rightarrow> drain_while dst' (n + 1) (of_nat (Q div 256)) (of_nat (N - 8)))"
    by (simp add: drain_def sub shr ucast_of_nat_byte split: option.splits)
  show ?thesis
  proof (cases "n < length dst")
    case False
    with unf j show ?thesis by (simp add: put_overwrite)
  next
    case True
    then have room: "n + 1 \<le> length (overwrite dst n [of_nat Q])" by simp
    have ow: "overwrite (overwrite dst n [of_nat Q]) (n + 1) (le_bytes j (Q div 256)) =
        overwrite dst n (le_bytes (Suc j) Q)" if "n + Suc j \<le> length dst"
      using overwrite_append [of n "[of_nat Q]" "le_bytes j (Q div 256)" dst] that by simp
    have dv: "Q div 256 div 256 ^ j = Q div 256 ^ Suc j"
      by (simp add: div_mult2_eq)
    have md: "(N - 8) mod 8 = N mod 8" using assms(3) by (simp add: le_mod_geq)
    from True unf have "drain dst n (of_nat Q) (of_nat N) =
        drain_while (overwrite dst n [of_nat Q]) (n + 1) (of_nat (Q div 256)) (of_nat (N - 8))"
      by (simp add: put_overwrite)
    also note drain_while_spec [OF Q' N' room]
    finally show ?thesis
      using True ow by (simp add: j(1) j(2) [symmetric] dv md)
  qed
qed

lemma int_and_8191: "int V AND 8191 = int (V mod 8192)"
  using of_nat_and_eq [of V 8191, where 'a = int] by (simp add: nat_and_8191)

lemma dec_pair_spec:
  assumes "dec_inv Q N" "V = unat d0 + unat d1 * 91" "V \<le> 8280"
  shows "dec_pair (of_nat Q) (of_nat N) (uint d0) d1 = (of_nat (Q + V * 2 ^ N), of_nat (N + width V))"
proof -
  from assms(1) have N: "N \<le> 7" and Q: "Q < 2 ^ N" by (simp_all add: dec_inv_def)
  have v: "uint d0 + uint d1 * 91 = int V" by (simp add: assms(2))
  have uN: "unat (of_nat N :: go_uint) = N" using N by (intro unat_of_nat64) simp
  have w: "(word_of_int (int V) :: go_uint) = of_nat V" by simp
  have q1: "of_nat Q OR push_bit (unat (of_nat N :: go_uint)) (word_of_int (int V))
      = (of_nat (Q + V * 2 ^ N) :: go_uint)"
    using word_merge [OF Q, of V] by (simp only: uN w)
  have c: "(88 < int V AND 8191) = (88 < V mod 8192)"
    by (simp only: int_and_8191) simp
  have n13: "(of_nat N :: go_uint) + 13 = of_nat (N + 13)" by simp
  have n14: "(of_nat N :: go_uint) + 14 = of_nat (N + 14)" by simp
  show ?thesis
    unfolding dec_pair_def Let_def v
    by (simp only: q1 c n13 n14 width_def) (simp del: of_nat_add)
qed

lemma byte_of_nat_neq_ff: "k < 91 \<Longrightarrow> (of_nat k :: byte) \<noteq> 0xff"
proof
  assume k: "k < 91" and "(of_nat k :: byte) = 0xff"
  then have "unat (of_nat k :: byte) = unat (0xff :: byte)" by simp
  with k show False by (simp add: unat_of_nat_byte)
qed

lemma unat_byte_of_nat: "k < 91 \<Longrightarrow> unat (of_nat k :: byte) = k"
  by (simp add: unat_of_nat_byte)

lemma uint_byte_of_nat: "k < 91 \<Longrightarrow> uint (of_nat k :: byte) = int k"
  using unat_byte_of_nat [of k] by (simp only: uint_nat)

lemma Decode_loop_pair:
  assumes tab: "valid_table enc" and inv: "dec_inv Q N" and v: "v \<le> 8280"
    and n: "n \<le> length dst"
  shows "Decode_loop enc dst n (of_nat Q) (of_nat N) (-1) i (pair_syms enc v @ rest) =
    (let q1 = Q + v * 2 ^ N; n1 = N + width v; j = n1 div 8
     in if n + j \<le> length dst
        then Decode_loop enc (overwrite dst n (le_bytes j q1)) (n + j)
               (of_nat (q1 div 256 ^ j)) (of_nat (n1 mod 8)) (-1) (i + 2) rest
        else None)"
proof -
  let ?c0 = "encode enc ! (v mod 91)" and ?c1 = "encode enc ! (v div 91)"
  have lo: "v mod 91 < 91" by simp
  have hi: "v div 91 < 91" using v by (rule div_91_less)
  from tab lo have d0: "decodeMap enc ?c0 = of_nat (v mod 91)" by (simp add: valid_table_def)
  from tab hi have d1: "decodeMap enc ?c1 = of_nat (v div 91)" by (simp add: valid_table_def)
  have V: "v = unat (of_nat (v mod 91) :: byte) + unat (of_nat (v div 91) :: byte) * 91"
    by (simp add: unat_byte_of_nat [OF lo] unat_byte_of_nat [OF hi])
  note pair = dec_pair_spec [OF inv V v]
  from inv have N: "N \<le> 7" and Q: "Q < 2 ^ N" by (simp_all add: dec_inv_def)
  from v have "v < 2 ^ width v" by (rule less_pow_width)
  with Q have "Q + v * 2 ^ N < 2 ^ (N + width v)" by (rule merge_less)
  also have "(2::nat) ^ (N + width v) \<le> 2 ^ 21"
    using N width_cases [of v] by (intro power_increasing) auto
  finally have q1: "Q + v * 2 ^ N < 2 ^ 64" by simp
  have n1: "N + width v < 2 ^ 64" "8 \<le> N + width v"
    using N width_cases [of v] by auto
  note dr = drain_spec [OF q1 n1 n]
  have nm1: "uint (of_nat (v mod 91) :: byte) \<noteq> - 1"
    by (simp add: uint_byte_of_nat [OF lo])
  show ?thesis
    unfolding pair_syms_def
    by (simp add: d0 d1 byte_of_nat_neq_ff [OF lo] byte_of_nat_neq_ff [OF hi] nm1 pair dr
        Let_def del: of_nat_add of_nat_mult of_nat_power)
qed

lemma dec_step_inv:
  assumes "dec_inv Q N" "v \<le> 8280"
  shows "dec_inv ((Q + v * 2 ^ N) div 256 ^ ((N + width v) div 8)) ((N + width v) mod 8)"
proof -
  define q1 where "q1 = Q + v * 2 ^ N"
  define n1 where "n1 = N + width v"
  define j where "j = n1 div 8"
  from assms(2) have v: "v < 2 ^ width v" by (rule less_pow_width)
  from assms(1) have q: "Q < 2 ^ N" by (simp add: dec_inv_def)
  from q v have q1: "q1 < 2 ^ n1" unfolding q1_def n1_def by (rule merge_less)
  have n1: "n1 = 8 * j + n1 mod 8" by (simp add: j_def)
  have "q1 div 2 ^ (8 * j) < 2 ^ (n1 - 8 * j)"
    using q1 by (rule div_pow_less) (simp add: j_def)
  moreover have "n1 - 8 * j = n1 mod 8" using n1 by linarith
  ultimately have "dec_inv (q1 div 256 ^ j) (n1 mod 8)"
    by (simp add: dec_inv_def pow256)
  then show ?thesis by (simp only: q1_def n1_def j_def)
qed

lemma Decode_loop_syms:
  assumes tab: "valid_table enc"
    and "dec_inv Q N" "\<forall>v \<in> set vs. v \<le> 8280" "dec_vals Q N vs = (out, Qf, Nf)"
    and "n + length out \<le> length dst"
  shows "Decode_loop enc dst n (of_nat Q) (of_nat N) (-1) i (syms enc vs @ rest) =
    Decode_loop enc (overwrite dst n out) (n + length out) (of_nat Qf) (of_nat Nf) (-1)
      (i + 2 * length vs) rest"
  using assms(2-)
proof (induction vs arbitrary: Q N dst n i out)
  case Nil
  then show ?case by (simp add: syms_def)
next
  case (Cons v vs)
  define q1 where "q1 = Q + v * 2 ^ N"
  define n1 where "n1 = N + width v"
  define j where "j = n1 div 8"
  from Cons.prems(3) obtain out' where
    run': "dec_vals (q1 div 256 ^ j) (n1 mod 8) vs = (out', Qf, Nf)"
    and out: "out = le_bytes j q1 @ out'"
    by (auto simp: Let_def q1_def n1_def j_def split: prod.splits)
  from Cons.prems(2) have v: "v \<le> 8280" and vs: "\<forall>v \<in> set vs. v \<le> 8280" by simp_all
  have inv': "dec_inv (q1 div 256 ^ j) (n1 mod 8)"
    unfolding q1_def n1_def j_def using Cons.prems(1) v by (rule dec_step_inv)
  from Cons.prems(4) have n: "n \<le> length dst" and nj: "n + j \<le> length dst"
    by (simp_all add: out)
  from nj have len: "length (overwrite dst n (le_bytes j q1)) = length dst" by simp
  from Cons.prems(4) have room: "(n + j) + length out' \<le> length (overwrite dst n (le_bytes j q1))"
    by (simp add: len out)
  have ow: "overwrite (overwrite dst n (le_bytes j q1)) (n + j) out' = overwrite dst n out"
    using overwrite_append [of n "le_bytes j q1" out' dst] Cons.prems(4) by (simp add: out)
  have "Decode_loop enc dst n (of_nat Q) (of_nat N) (-1) i (syms enc (v # vs) @ rest) =
      Decode_loop enc dst n (of_nat Q) (of_nat N) (-1) i (pair_syms enc v @ (syms enc vs @ rest))"
    by (simp add: syms_Cons)
  also have "\<dots> = Decode_loop enc (overwrite dst n (le_bytes j q1)) (n + j)
      (of_nat (q1 div 256 ^ j)) (of_nat (n1 mod 8)) (-1) (i + 2) (syms enc vs @ rest)"
    using Decode_loop_pair [OF tab Cons.prems(1) v n, of i "syms enc vs @ rest"] nj
    by (simp add: Let_def q1_def n1_def j_def)
  also have "\<dots> = Decode_loop enc (overwrite dst n out) (n + length out) (of_nat Qf) (of_nat Nf)
      (-1) (i + 2 * length (v # vs)) rest"
    using Cons.IH [OF inv' vs run' room, of "i + 2"] by (simp add: ow out add.assoc)
  finally show ?case .
qed

lemma Decode_encode_syms:
  assumes tab: "valid_table enc" and room: "length src \<le> length dst"
  shows "Decode enc dst (encode_syms enc src) = Some (overwrite dst 0 src, length src, None)"
proof -
  obtain vs Qf Nf where enc: "enc_vals 0 0 src = (vs, Qf, Nf)"
    by (cases "enc_vals 0 0 src") auto
  note E = enc_vals_inv [OF enc_inv_0 enc]
  have pairs: "Decode enc dst (syms enc ws) = Some (overwrite dst 0 src, length src, None)"
    if ws: "ws = vs \<and> Nf = 0 \<or> ws = vs @ [Qf] \<and> (7 < Nf \<or> 90 < Qf)" for ws
  proof -
    obtain out qd nd where dec: "dec_vals 0 0 ws = (out, qd, nd)"
      by (cases "dec_vals 0 0 ws") auto
    from enc dec ws have out: "out = src" by (rule roundtrip_pairs)
    have "\<forall>v \<in> set ws. v \<le> 8280"
      using ws E(4) flush_width(3) [OF E(1)] by auto
    from Decode_loop_syms [OF tab dec_inv_0 this dec, of 0 dst 0 "[]"] room
    show ?thesis by (simp add: Decode_def out)
  qed
  show ?thesis
  proof (cases "0 < Nf")
    case False
    then have "encode_syms enc src = syms enc vs"
      by (simp add: encode_syms_def enc flush_syms_def)
    with False pairs [of vs] show ?thesis by simp
  next
    case pos: True
    show ?thesis
    proof (cases "7 < Nf \<or> 90 < Qf")
      case True
      with pos have "encode_syms enc src = syms enc (vs @ [Qf])"
        by (simp add: encode_syms_def enc flush_syms_def syms_def)
      with True pairs [of "vs @ [Qf]"] show ?thesis by simp
    next
      case False
      then have Qf: "Qf < 91" by simp
      let ?c = "encode enc ! (Qf mod 91)"
      from False pos have syms: "encode_syms enc src = syms enc vs @ [?c]"
        by (simp add: encode_syms_def enc flush_syms_def)
      obtain out qd nd where dec: "dec_vals 0 0 vs = (out, qd, nd)"
        by (cases "dec_vals 0 0 vs") auto
      note R = roundtrip_single [OF enc dec pos False]
      from R(1) have len: "length src = length out + 1" by auto
      note D = dec_vals_inv [OF dec_inv_0 E(4) dec]
      from D(1) have nd: "nd \<le> 7" and qdl: "qd < 2 ^ nd" by (simp_all add: dec_inv_def)
      from tab Qf have d: "decodeMap enc ?c = of_nat Qf" by (simp add: valid_table_def)
      have unat_nd: "unat (of_nat nd :: go_uint) = nd" using nd by (intro unat_of_nat64) simp
      have "of_nat qd OR push_bit (unat (of_nat nd :: go_uint)) (of_nat Qf)
          = (of_nat (qd + Qf * 2 ^ nd) :: go_uint)"
        using word_merge [OF qdl, of Qf] by (simp only: unat_nd)
      then have last: "ucast (of_nat qd OR push_bit (unat (of_nat nd :: go_uint)) (of_nat Qf) :: go_uint)
          = (of_nat (qd + Qf * 2 ^ nd) :: byte)"
        by (simp only: ucast_of_nat_byte)
      have ow: "overwrite (overwrite dst 0 out) (length out) [of_nat (qd + Qf * 2 ^ nd)]
          = overwrite dst 0 src"
        using overwrite_append [of 0 out "[of_nat (qd + Qf * 2 ^ nd)]" dst] room len R(1)
        by simp
      have "Decode_loop enc dst 0 0 0 (-1) 0 (syms enc vs @ [?c]) =
          Decode_loop enc (overwrite dst 0 out) (length out) (of_nat qd) (of_nat nd) (-1)
            (2 * length vs) [?c]"
        using Decode_loop_syms [OF tab dec_inv_0 E(4) dec, of 0 dst 0 "[?c]"] room len by simp
      also have "\<dots> = Some (overwrite dst 0 out, length out, of_nat qd, of_nat nd, int Qf, None)"
        by (simp add: d byte_of_nat_neq_ff [OF Qf] uint_byte_of_nat [OF Qf])
      finally show ?thesis
        using room len by (simp add: Decode_def syms last put_overwrite ow del: of_nat_add of_nat_mult)
    qed
  qed
qed

section \<open>The tables built by NewEncoding\<close>

text \<open>
  \<open>fill a n\<close> maps a byte to the last index below \<open>n\<close> at which it stands in
  \<open>a\<close>, and to \<open>0xff\<close> when it stands at none.
\<close>

lemma fill_0: "fill a 0 = (\<lambda>_. 0xff)"
  by (simp add: fill_def)

lemma fill_Suc: "fill a (Suc n) = (fill a n)(a ! n := of_nat n)"
  by (simp add: fill_def)

lemma fill_cases:
  "fill a n x = 0xff \<and> (\<forall>i < n. a ! i \<noteq> x)
   \<or> (\<exists>i < n. a ! i = x \<and> fill a n x = of_nat i \<and> (\<forall>j. i < j \<and> j < n \<longrightarrow> a ! j \<noteq> x))"
proof (induction n)
  case 0
  show ?case by (simp add: fill_0)
next
  case (Suc n)
  show ?case
  proof (cases "a ! n = x")
    case True
    then have "a ! n = x \<and> fill a (Suc n) x = of_nat n \<and> (\<forall>j. n < j \<and> j < Suc n \<longrightarrow> a ! j \<noteq> x)"
      by (auto simp: fill_Suc)
    then show ?thesis by blast
  next
    case False
    then have eq: "fill a (Suc n) x = fill a n x" by (simp add: fill_Suc)
    from Suc show ?thesis
    proof
      assume "fill a n x = 0xff \<and> (\<forall>i < n. a ! i \<noteq> x)"
      with False eq have "fill a (Suc n) x = 0xff \<and> (\<forall>i < Suc n. a ! i \<noteq> x)"
        by (simp add: less_Suc_eq)
      then show ?thesis ..
    next
      assume "\<exists>i < n. a ! i = x \<and> fill a n x = of_nat i \<and> (\<forall>j. i < j \<and> j < n \<longrightarrow> a ! j \<noteq> x)"
      then obtain i where "i < n" "a ! i = x" "fill a n x = of_nat i"
        "\<forall>j. i < j \<and> j < n \<longrightarrow> a ! j \<noteq> x" by blast
      with False eq have "i < Suc n \<and> a ! i = x \<and> fill a (Suc n) x = of_nat i
          \<and> (\<forall>j. i < j \<and> j < Suc n \<longrightarrow> a ! j \<noteq> x)"
        by (auto simp: less_Suc_eq)
      then show ?thesis by blast
    qed
  qed
qed

lemma fill_outside:
  assumes "x \<notin> set a" "n \<le> length a"
  shows "fill a n x = 0xff"
proof -
  have "a ! i \<noteq> x" if "i < n" for i
    using that assms nth_mem [of i a] by auto
  with fill_cases [of a n x] show ?thesis by blast
qed

lemma fill_distinct:
  assumes "distinct a" "n \<le> length a" "i < n"
  shows "fill a n (a ! i) = of_nat i"
proof -
  from fill_cases [of a n "a ! i"] assms(3)
  obtain k where k: "k < n" "a ! k = a ! i" "fill a n (a ! i) = of_nat k" by blast
  from assms k(1,2) have "k = i" by (simp add: nth_eq_iff_index_eq)
  with k(3) show ?thesis by simp
qed

lemma NewEncoding_Inr:
  assumes "NewEncoding alphabet = Inr enc"
  shows "length alphabet = 91" and "encode enc = alphabet"
    and "decodeMap enc = fill alphabet 91"
    and "0x0A \<notin> set alphabet" and "0x0D \<notin> set alphabet"
proof -
  from assms show len: "length alphabet = 91"
    by (simp add: NewEncoding_def split: if_splits)
  from assms have "encode enc = copy (replicate 91 0) alphabet"
    by (auto simp: NewEncoding_def split: if_splits)
  with len show "encode enc = alphabet" by (simp add: copy_def)
  from assms len show "decodeMap enc = fill alphabet 91"
    by (auto simp: NewEncoding_def fill_def split: if_splits)
  from assms show "0x0A \<notin> set alphabet" and "0x0D \<notin> set alphabet"
    by (auto simp: NewEncoding_def split: if_splits)
qed

lemma NewEncoding_valid_table:
  assumes "NewEncoding alphabet = Inr enc" "distinct alphabet"
  shows "valid_table enc"
proof -
  note N = NewEncoding_Inr [OF assms(1)]
  have "decodeMap enc (encode enc ! k) = of_nat k" if "k < 91" for k
    using fill_distinct [OF assms(2), of 91 k] that N by simp
  with N show ?thesis by (simp add: valid_table_def)
qed

lemma NewEncoding_succeeds:
  assumes "length alphabet = 91" "0x0A \<notin> set alphabet" "0x0D \<notin> set alphabet"
  shows "\<exists>enc. NewEncoding alphabet = Inr enc"
  using assms by (auto simp: NewEncoding_def)

section \<open>The round trip\<close>

lemma length_src_le_encode_syms: "length src \<le> length (encode_syms enc src)"
proof -
  obtain vs Qf Nf where run: "enc_vals 0 0 src = (vs, Qf, Nf)"
    by (cases "enc_vals 0 0 src") auto
  note E = enc_vals_inv [OF enc_inv_0 run]
  from E(1) have Nf: "Nf \<le> 13" by (simp add: enc_inv_def)
  from E(3) have bits: "8 * length src = widths vs + Nf" by simp
  have len: "length (encode_syms enc src) = 2 * length vs + length (flush_syms enc Qf Nf)"
    by (simp add: encode_syms_def run)
  from Nf have "Nf \<le> 8 * length (flush_syms enc Qf Nf)"
    by (auto simp: length_flush_syms)
  with widths_le [of vs] bits len show ?thesis by linarith
qed

lemma DecodeString_encode_syms:
  assumes "valid_table enc"
  shows "DecodeString enc (encode_syms enc src) = Some (src, None)"
proof -
  let ?buf = "replicate (DecodedLen (length (encode_syms enc src))) 0 :: byte list"
  have room: "length src \<le> length ?buf"
    using length_src_le_encode_syms [of src enc] by (simp add: DecodedLen_def)
  then have "take (length src) (overwrite ?buf 0 src) = src"
    using take_overwrite [of 0 src ?buf] by simp
  with Decode_encode_syms [OF assms room] show ?thesis
    by (simp add: DecodeString_def)
qed

text \<open>
  C1. Round trip. For an encoding built by \<open>NewEncoding\<close> from an alphabet of 91
  distinct bytes and for every byte sequence \<open>src\<close>, the empty one included:
  \<open>Encode\<close> into any buffer of at least \<open>(16 * length src + 12) div 13\<close> bytes, the
  ceiling of \<open>length src * 16 / 13\<close>, returns a count \<open>n\<close>, and \<open>Decode\<close> of the
  first \<open>n\<close> bytes of that buffer into any buffer of at least \<open>length src\<close> bytes
  returns the count \<open>length src\<close>, no error, and leaves \<open>src\<close> at the front of the
  buffer. With the buffers that \<open>EncodeToString\<close> and \<open>DecodeString\<close> allocate, for
  \<open>length src < 13 * 2 ^ 46\<close>: \<open>EncodeToString\<close> returns a string, and
  \<open>DecodeString\<close> of that string returns \<open>src\<close> with no error.
\<close>

theorem Decode_Encode_roundtrip:
  assumes "NewEncoding alphabet = Inr enc" "distinct alphabet"
  shows "(\<forall>dst. (16 * length src + 12) div 13 \<le> length dst \<longrightarrow>
          (\<exists>dst' n. Encode enc dst src = Some (dst', n) \<and>
             (\<forall>out. length src \<le> length out \<longrightarrow>
                (\<exists>out'. Decode enc out (take n dst') = Some (out', length src, None)
                   \<and> take (length src) out' = src))))
    \<and> (length src < 13 * 2 ^ 46 \<longrightarrow>
          (\<exists>s. EncodeToString enc src = Some s \<and> DecodeString enc s = Some (src, None)))"
proof -
  note tab = NewEncoding_valid_table [OF assms]
  then have wf: "length (encode enc) = 91" by (simp add: valid_table_def)
  have 1: "\<exists>s. EncodeToString enc src = Some s \<and> DecodeString enc s = Some (src, None)"
    if "length src < 13 * 2 ^ 46"
    using EncodeToString_spec [OF wf that] DecodeString_encode_syms [OF tab, of src] by simp
  have 2: "\<exists>dst' n. Encode enc dst src = Some (dst', n) \<and>
      (\<forall>out. length src \<le> length out \<longrightarrow>
         (\<exists>out'. Decode enc out (take n dst') = Some (out', length src, None)
            \<and> take (length src) out' = src))"
    if room: "(16 * length src + 12) div 13 \<le> length dst" for dst
  proof -
    let ?s = "encode_syms enc src"
    from room encode_syms_le [of enc src] have fit: "length ?s \<le> length dst" by simp
    then have enc: "Encode enc dst src = Some (overwrite dst 0 ?s, length ?s)"
      by (simp add: Encode_spec [OF wf])
    from fit have tk: "take (length ?s) (overwrite dst 0 ?s) = ?s"
      using take_overwrite [of 0 ?s dst] by simp
    have "\<exists>out'. Decode enc out (take (length ?s) (overwrite dst 0 ?s)) = Some (out', length src, None)
        \<and> take (length src) out' = src" if "length src \<le> length out" for out
      using Decode_encode_syms [OF tab that] take_overwrite [of 0 src out] that
      by (simp add: tk)
    with enc show ?thesis by blast
  qed
  from 1 2 show ?thesis by blast
qed

lemma distinct_encodeStd: "distinct encodeStd"
  by (simp add: encodeStd_def)

theorem Decode_Encode_roundtrip_witness:
  "\<exists>enc. NewEncoding encodeStd = Inr enc \<and> distinct encodeStd
     \<and> length [0x74, 0x65, 0x73 :: byte] < 13 * 2 ^ 46
     \<and> (\<exists>s. EncodeToString enc [0x74, 0x65, 0x73] = Some s
           \<and> DecodeString enc s = Some ([0x74, 0x65, 0x73], None))"
proof -
  from NewEncoding_encodeStd obtain enc where enc: "NewEncoding encodeStd = Inr enc" ..
  have small: "length [0x74, 0x65, 0x73 :: byte] < 13 * 2 ^ 46" by simp
  from Decode_Encode_roundtrip [OF enc distinct_encodeStd, of "[0x74, 0x65, 0x73]"] small
  have "\<exists>s. EncodeToString enc [0x74, 0x65, 0x73] = Some s
      \<and> DecodeString enc s = Some ([0x74, 0x65, 0x73], None)"
    by blast
  with enc distinct_encodeStd small show ?thesis by blast
qed

section \<open>The alphabets that NewEncoding takes\<close>

text \<open>
  C5. An alphabet whose length is not 91, or that contains a line feed \<open>0x0A\<close> or a
  carriage return \<open>0x0D\<close>, makes \<open>NewEncoding\<close> panic: the result is a panic with
  one of the two messages of the source, and no \<open>Encoding\<close> is returned.
\<close>

theorem NewEncoding_rejects:
  assumes "length alphabet \<noteq> 91 \<or> 0x0A \<in> set alphabet \<or> 0x0D \<in> set alphabet"
  shows "(NewEncoding alphabet = Inl (Panic ''encoding alphabet is not 91 bytes long'')
          \<or> NewEncoding alphabet = Inl (Panic ''encoding alphabet contains newline character''))
    \<and> (\<forall>enc. NewEncoding alphabet \<noteq> Inr enc)
    \<and> (NewEncoding alphabet = Inl (Panic ''encoding alphabet is not 91 bytes long'')
          \<longleftrightarrow> length alphabet \<noteq> 91)"
  using assms by (auto simp: NewEncoding_def)

theorem NewEncoding_rejects_witness:
  "length ([] :: byte list) \<noteq> 91
   \<and> NewEncoding [] = Inl (Panic ''encoding alphabet is not 91 bytes long'')
   \<and> 0x0A \<in> set (encodeStd[5 := 0x0A])
   \<and> NewEncoding (encodeStd[5 := 0x0A]) = Inl (Panic ''encoding alphabet contains newline character'')
   \<and> 0x0D \<in> set (encodeStd[90 := 0x0D])
   \<and> NewEncoding (encodeStd[90 := 0x0D]) = Inl (Panic ''encoding alphabet contains newline character'')"
proof -
  have a: "length ([] :: byte list) \<noteq> 91" by simp
  have b: "0x0A \<in> set (encodeStd[5 := 0x0A])" by (simp add: encodeStd_def)
  have c: "0x0D \<in> set (encodeStd[90 := 0x0D])" by (simp add: encodeStd_def)
  have lb: "length (encodeStd[5 := 0x0A]) = 91" by (simp add: encodeStd_def)
  have lc: "length (encodeStd[90 := 0x0D]) = 91" by (simp add: encodeStd_def)
  from NewEncoding_rejects [of "[]"] a
  have 1: "NewEncoding [] = Inl (Panic ''encoding alphabet is not 91 bytes long'')" by simp
  from NewEncoding_rejects [of "encodeStd[5 := 0x0A]"] b lb
  have 2: "NewEncoding (encodeStd[5 := 0x0A]) = Inl (Panic ''encoding alphabet contains newline character'')"
    by blast
  from NewEncoding_rejects [of "encodeStd[90 := 0x0D]"] c lc
  have 3: "NewEncoding (encodeStd[90 := 0x0D]) = Inl (Panic ''encoding alphabet contains newline character'')"
    by blast
  from a b c 1 2 3 show ?thesis by blast
qed



text \<open>
  C9. \<open>NewEncoding\<close> does not reject a duplicated symbol. The standard alphabet with
  its first symbol \<open>A\<close> replaced by \<open>B\<close> (\<open>0x42\<close>) has 91 bytes, no line feed and no
  carriage return, and holds \<open>B\<close> at the indices 0 and 1. \<open>NewEncoding\<close> returns an
  encoding for it, whose \<open>decodeMap\<close> sends \<open>encode[0]\<close> to 1 and not to 0, and
  sends no byte at all to the code 0.
\<close>

theorem NewEncoding_accepts_duplicate:
  "\<exists>enc. NewEncoding (encodeStd[0 := 0x42]) = Inr enc
     \<and> length (encodeStd[0 := 0x42]) = 91
     \<and> 0x0A \<notin> set (encodeStd[0 := 0x42]) \<and> 0x0D \<notin> set (encodeStd[0 := 0x42])
     \<and> \<not> distinct (encodeStd[0 := 0x42])
     \<and> encode enc ! 0 = 0x42 \<and> encode enc ! 1 = 0x42
     \<and> decodeMap enc (encode enc ! 0) = 1
     \<and> (\<forall>x. decodeMap enc x \<noteq> 0)"
proof -
  let ?a = "encodeStd[0 := 0x42]"
  have len: "length ?a = 91" by (simp add: encodeStd_def)
  have lf: "0x0A \<notin> set ?a" and cr: "0x0D \<notin> set ?a" by (simp_all add: encodeStd_def)
  have a0: "?a ! 0 = 0x42" and a1: "?a ! 1 = 0x42" by (simp_all add: encodeStd_def)
  have dup: "\<not> distinct ?a" by (simp add: encodeStd_def)
  from NewEncoding_succeeds [OF len lf cr] obtain enc where enc: "NewEncoding ?a = Inr enc" ..
  note N = NewEncoding_Inr [OF enc]
  have none: "decodeMap enc x \<noteq> 0" for x
  proof
    assume z: "decodeMap enc x = 0"
    with N(3) have f: "fill ?a 91 x = 0" by simp
    with fill_cases [of ?a 91 x] obtain i where i: "i < 91" "?a ! i = x"
      "fill ?a 91 x = of_nat i" "\<forall>j. i < j \<and> j < 91 \<longrightarrow> ?a ! j \<noteq> x"
      by auto
    from i(3) f have "unat (of_nat i :: byte) = unat (0 :: byte)" by simp
    with i(1) have "i = 0" by (simp add: unat_byte_of_nat)
    with i(2,4) a0 a1 show False by auto
  qed
  have rest: "0x42 \<notin> set (drop 2 ?a)" by (simp add: encodeStd_def)
  have one: "decodeMap enc (encode enc ! 0) = 1"
  proof -
    from fill_cases [of ?a 91 "0x42"] a0 obtain i where i: "i < 91" "?a ! i = 0x42"
      "fill ?a 91 0x42 = of_nat i" "\<forall>j. i < j \<and> j < 91 \<longrightarrow> ?a ! j \<noteq> 0x42"
      by auto
    from i(4) a1 have "i \<noteq> 0" by auto
    moreover have "\<not> 2 \<le> i"
    proof
      assume i2: "2 \<le> i"
      then have "2 + (i - 2) = i" by simp
      with len have "drop 2 ?a ! (i - 2) = ?a ! i" by (simp only: nth_drop) 
      moreover from i(1) i2 len have "i - 2 < length (drop 2 ?a)" by simp
      ultimately have "drop 2 ?a ! (i - 2) = ?a ! i" and "i - 2 < length (drop 2 ?a)" .
      with i(2) rest nth_mem [of "i - 2" "drop 2 ?a"] show False by auto
    qed
    ultimately have "i = 1" by simp
    with i(3) show ?thesis by (simp add: N(2,3) a0)
  qed
  from enc len lf cr dup a0 a1 one none N(2) show ?thesis by auto
qed

section \<open>One step of the loop of Encode\<close>




section \<open>The bound on numBits\<close>

text \<open>
  \<open>numBits\<close> is at most 13 at the head of the loop of \<open>Encode\<close> and at most 7 at the
  head of the loop of \<open>Decode\<close>, whatever the input.
\<close>

lemma Encode_trace_bound:
  assumes "enc_inv Q N"
  shows "\<forall>s \<in> set (Encode_trace (of_nat Q) (of_nat N) src). unat (snd s) \<le> 21"
  using assms
proof (induction src arbitrary: Q N)
  case Nil
  then have "N \<le> 13" by (simp add: enc_inv_def)
  then show ?case by (simp add: unat_of_nat64)
next
  case (Cons b src)
  from Cons.prems have N: "N \<le> 13" by (simp add: enc_inv_def)
  then have head: "unat (of_nat N :: go_uint) \<le> 21" by (simp add: unat_of_nat64)
  have "(of_nat N :: go_uint) + 8 = of_nat (N + 8)" by simp
  moreover from N have "unat (of_nat (N + 8) :: go_uint) = N + 8"
    by (intro unat_of_nat64) simp
  ultimately have mid: "unat ((of_nat N :: go_uint) + 8) \<le> 21" using N by simp
  obtain q' nb' ov where n_step: "enc_step_n Q N b = (q', nb', ov)"
    by (cases "enc_step_n Q N b") auto
  have inv': "enc_inv q' nb'"
  proof (cases "N + 8 \<le> 13")
    case True
    from enc_step_n_keep [OF Cons.prems True, of b] n_step show ?thesis by simp
  next
    case False
    then have "13 < N + 8" by simp
    with Cons.prems obtain v q'' where "enc_step_n Q N b = (q'', N + 8 - width v, Some v)"
      "enc_inv q'' (N + 8 - width v)" by (rule enc_step_n_take)
    with n_step show ?thesis by simp
  qed
  from enc_step_sim [OF Cons.prems, of b] n_step
  have "enc_step (of_nat Q) (of_nat N) b = (of_nat q', of_nat nb', map_option of_nat ov)"
    by simp
  with Cons.IH [OF inv'] head mid show ?case by simp
qed

lemma unat_sub8: "7 < (nb :: go_uint) \<Longrightarrow> unat (nb - 8) = unat nb - 8"
  by (simp add: word_less_nat_alt unat_sub_if')

lemma drain_while_trace_bound:
  "\<forall>s \<in> set (drain_while_trace q nb). unat (snd s) \<le> unat nb"
proof (induction q nb rule: drain_while_trace.induct)
  case (1 q nb)
  show ?case
  proof (cases "7 < nb")
    case False
    then show ?thesis by (subst drain_while_trace.simps) simp
  next
    case True
    from 1 [OF True] unat_sub8 [OF True] show ?thesis
      by (subst drain_while_trace.simps) (auto simp: True)
  qed
qed

lemma drain_while_trace_last:
  "unat (snd (last ((q, nb) # drain_while_trace q nb))) \<le> 7"
proof (induction q nb rule: drain_while_trace.induct)
  case (1 q nb)
  show ?case
  proof (cases "7 < nb")
    case False
    then have "unat nb \<le> 7" by (simp add: word_less_nat_alt)
    with False show ?thesis by (subst drain_while_trace.simps) simp
  next
    case True
    from 1 [OF True] show ?thesis
      by (subst drain_while_trace.simps) (simp add: True)
  qed
qed

lemma drain_trace_bound:
  assumes "8 \<le> unat nb"
  shows "\<forall>s \<in> set (drain_trace q nb). unat (snd s) \<le> unat nb"
    and "unat (snd (last (drain_trace q nb))) \<le> 7"
proof -
  from assms have "7 < nb" by (simp add: word_less_nat_alt)
  then have sub: "unat (nb - 8) = unat nb - 8" by (rule unat_sub8)
  with drain_while_trace_bound [of "drop_bit 8 q" "nb - 8"]
  show "\<forall>s \<in> set (drain_trace q nb). unat (snd s) \<le> unat nb"
    by (auto simp: drain_trace_def)
  from drain_while_trace_last [of "drop_bit 8 q" "nb - 8"]
  show "unat (snd (last (drain_trace q nb))) \<le> 7"
    by (simp add: drain_trace_def)
qed

lemma dec_pair_numBits:
  assumes "unat nb \<le> 7"
  shows "unat (snd (dec_pair q nb v d)) = unat nb + 13 \<or> unat (snd (dec_pair q nb v d)) = unat nb + 14"
proof -
  have "unat (nb + 13) = unat nb + 13" using assms by (simp add: unat_word_ariths)
  moreover have "unat (nb + 14) = unat nb + 14" using assms by (simp add: unat_word_ariths)
  ultimately show ?thesis by (simp add: dec_pair_def Let_def)
qed

lemma Decode_trace_bound:
  assumes "unat nb \<le> 7"
  shows "\<forall>s \<in> set (Decode_trace enc q nb v src). unat (snd s) \<le> 21"
  using assms
proof (induction src arbitrary: q nb v)
  case Nil
  then show ?case by simp
next
  case (Cons c src)
  show ?case
  proof (cases "decodeMap enc c = 0xff")
    case True
    with Cons.prems show ?thesis by simp
  next
    case valid: False
    show ?thesis
    proof (cases "v = -1")
      case True
      with valid Cons.IH [OF Cons.prems] show ?thesis by simp
    next
      case False
      obtain q1 nb1 where pair: "dec_pair q nb v (decodeMap enc c) = (q1, nb1)"
        by (cases "dec_pair q nb v (decodeMap enc c)") auto
      from dec_pair_numBits [OF Cons.prems, of q v "decodeMap enc c"] pair Cons.prems
      have nb1: "8 \<le> unat nb1" "unat nb1 \<le> 21" by auto
      obtain q2 nb2 where lst: "last (drain_trace q1 nb1) = (q2, nb2)"
        by (cases "last (drain_trace q1 nb1)") auto
      from drain_trace_bound(2) [OF nb1(1), of q1] lst have nb2: "unat nb2 \<le> 7" by simp
      from drain_trace_bound(1) [OF nb1(1), of q1] nb1(2)
      have dr: "\<forall>s \<in> set (drain_trace q1 nb1). unat (snd s) \<le> 21" by auto
      from valid False pair lst Cons.IH [OF nb2, of q2 "-1"] Cons.prems nb1(2) dr
      show ?thesis by auto
    qed
  qed
qed

lemma Encode_trace_last:
  "Encode_loop enc dst n q nb src = Some (dst', n', q', nb') \<Longrightarrow>
   last (Encode_trace q nb src) = (q', nb')"
proof (induction src arbitrary: dst n q nb)
  case Nil
  then show ?case by simp
next
  case (Cons b src)
  obtain q1 nb1 ov where st: "enc_step q nb b = (q1, nb1, ov)"
    by (cases "enc_step q nb b") auto
  have ne: "Encode_trace q1 nb1 src \<noteq> []" by (cases src) simp_all
  show ?case
  proof (cases ov)
    case None
    with Cons.prems st have "Encode_loop enc dst n q1 nb1 src = Some (dst', n', q', nb')" by simp
    from Cons.IH [OF this] st ne show ?thesis by simp
  next
    case (Some v)
    with Cons.prems st obtain dst1 n1 where
      "Encode_loop enc dst1 n1 q1 nb1 src = Some (dst', n', q', nb')"
      by (auto split: Option.bind_splits)
    from Cons.IH [OF this] st ne show ?thesis by simp
  qed
qed

lemma drain_while_trace_last_eq:
  "drain_while dst n q nb = Some (dst', n', q', nb') \<Longrightarrow>
   last ((q, nb) # drain_while_trace q nb) = (q', nb')"
proof (induction dst n q nb rule: drain_while.induct)
  case (1 dst n q nb)
  show ?case
  proof (cases "7 < nb")
    case False
    from "1.prems" have "drain_while dst n q nb = Some (dst', n', q', nb')" .
    then have "Some (dst, n, q, nb) = Some (dst', n', q', nb')"
      by (subst (asm) drain_while.simps) (simp add: False)
    with False show ?thesis
      by (subst drain_while_trace.simps) simp
  next
    case True
    from "1.prems" have "put dst n (ucast q) \<bind>
        (\<lambda>dst. drain_while dst (n + 1) (drop_bit 8 q) (nb - 8)) = Some (dst', n', q', nb')"
      by (subst (asm) drain_while.simps) (simp add: True)
    then obtain dst1 where p: "put dst n (ucast q) = Some dst1"
      and r: "drain_while dst1 (n + 1) (drop_bit 8 q) (nb - 8) = Some (dst', n', q', nb')"
      by (auto split: Option.bind_splits)
    from "1.IH" [OF True p r] True show ?thesis
      by (subst drain_while_trace.simps) simp
  qed
qed

lemma drain_trace_last_eq:
  "drain dst n q nb = Some (dst', n', q', nb') \<Longrightarrow> last (drain_trace q nb) = (q', nb')"
proof -
  assume "drain dst n q nb = Some (dst', n', q', nb')"
  then obtain dst1 where
    "drain_while dst1 (n + 1) (drop_bit 8 q) (nb - 8) = Some (dst', n', q', nb')"
    by (auto simp: drain_def split: Option.bind_splits)
  from drain_while_trace_last_eq [OF this] show ?thesis by (simp add: drain_trace_def)
qed

lemma Decode_trace_not_Nil: "Decode_trace enc q nb v src \<noteq> []"
  by (induction src arbitrary: q nb v) (auto split: prod.splits)

lemma Decode_trace_last:
  "Decode_loop enc dst n q nb v i src = Some (dst', n', q', nb', v', e) \<Longrightarrow>
   last (Decode_trace enc q nb v src) = (q', nb')"
proof (induction src arbitrary: dst n q nb v i)
  case Nil
  then show ?case by simp
next
  case (Cons c src)
  show ?case
  proof (cases "decodeMap enc c = 0xff")
    case True
    with Cons.prems show ?thesis by simp
  next
    case valid: False
    show ?thesis
    proof (cases "v = -1")
      case True
      with valid Cons.prems Cons.IH show ?thesis by simp
    next
      case False
      obtain q1 nb1 where pair: "dec_pair q nb v (decodeMap enc c) = (q1, nb1)"
        by (cases "dec_pair q nb v (decodeMap enc c)") auto
      with valid False Cons.prems obtain dst2 n2 q2 nb2 where
        dr: "drain dst n q1 nb1 = Some (dst2, n2, q2, nb2)"
        and rest: "Decode_loop enc dst2 n2 q2 nb2 (-1) (i + 1) src = Some (dst', n', q', nb', v', e)"
        by (auto split: Option.bind_splits)
      from drain_trace_last_eq [OF dr] have lst: "last (drain_trace q1 nb1) = (q2, nb2)" .
      from Cons.IH [OF rest] valid False pair lst Decode_trace_not_Nil [of enc q2 nb2 "-1" src]
      show ?thesis by simp
    qed
  qed
qed

text \<open>
  C8. In every run of \<open>Encode\<close> and of \<open>Decode\<close>, on any input and with any
  encoding, every state the bit queue goes through has a count of pending bits of at
  most 21, hence within \<open>[0, 23]\<close>; the counts are unsigned, so a value that had
  wrapped below zero would be far above 23. The state with which either loop returns
  is one of these states.
\<close>

theorem numBits_bounded:
  "(\<forall>s \<in> set (Encode_trace 0 0 src). unat (snd s) \<le> 21 \<and> unat (snd s) \<le> 23)
   \<and> (\<forall>s \<in> set (Decode_trace enc 0 0 (-1) src). unat (snd s) \<le> 21 \<and> unat (snd s) \<le> 23)
   \<and> (\<forall>dst dst' n queue numBits.
         Encode_loop enc dst 0 0 0 src = Some (dst', n, queue, numBits) \<longrightarrow>
         (queue, numBits) \<in> set (Encode_trace 0 0 src) \<and> unat numBits \<le> 23)
   \<and> (\<forall>dst dst' n queue numBits v e.
         Decode_loop enc dst 0 0 0 (-1) 0 src = Some (dst', n, queue, numBits, v, e) \<longrightarrow>
         (queue, numBits) \<in> set (Decode_trace enc 0 0 (-1) src) \<and> unat numBits \<le> 23)"
proof -
  have E: "\<forall>s \<in> set (Encode_trace 0 0 src). unat (snd s) \<le> 21"
    using Encode_trace_bound [OF enc_inv_0, of src] by simp
  have D: "\<forall>s \<in> set (Decode_trace enc 0 0 (-1) src). unat (snd s) \<le> 21"
    using Decode_trace_bound [of 0 enc 0 "-1" src] by simp
  have El: "(queue, numBits) \<in> set (Encode_trace 0 0 src)"
    if "Encode_loop enc dst 0 0 0 src = Some (dst', n, queue, numBits)"
    for dst dst' n queue numBits
  proof -
    have "Encode_trace 0 0 src \<noteq> []" by (cases src) simp_all
    with Encode_trace_last [OF that] last_in_set [of "Encode_trace 0 0 src"]
    show ?thesis by simp
  qed
  have Dl: "(queue, numBits) \<in> set (Decode_trace enc 0 0 (-1) src)"
    if "Decode_loop enc dst 0 0 0 (-1) 0 src = Some (dst', n, queue, numBits, v, e)"
    for dst dst' n queue numBits v e
    using Decode_trace_last [OF that] Decode_trace_not_Nil [of enc 0 0 "-1" src]
      last_in_set [of "Decode_trace enc 0 0 (-1) src"]
    by simp
  from E D El Dl show ?thesis by fastforce
qed

theorem numBits_bounded_witness:
  "(0x7474, 16) \<in> set (Encode_trace 0 0 [0x74, 0x74]) \<and> unat (16 :: go_uint) \<le> 23
   \<and> (0x1FFF, 13) \<in> set (Decode_trace \<lparr>encode = [], decodeMap = (\<lambda>c. c - 0x21)\<rparr> 0 0 (-1) [0x22, 0x7B])
   \<and> unat (13 :: go_uint) \<le> 23"
proof -
  have a: "(0x7474, 16) \<in> set (Encode_trace 0 0 [0x74, 0x74])"
    by (simp add: enc_step_def)
  have b: "(0x1FFF, 13) \<in> set (Decode_trace \<lparr>encode = [], decodeMap = (\<lambda>c. c - 0x21)\<rparr> 0 0 (-1) [0x22, 0x7B])"
    by (simp add: dec_pair_def)
  from numBits_bounded [of "[0x74, 0x74]" "\<lparr>encode = [], decodeMap = (\<lambda>c. c - 0x21)\<rparr>"] a
  have "unat (16 :: go_uint) \<le> 23" by fastforce
  moreover
  from numBits_bounded [of "[0x22, 0x7B]" "\<lparr>encode = [], decodeMap = (\<lambda>c. c - 0x21)\<rparr>"] b
  have "unat (13 :: go_uint) \<le> 23" by fastforce
  ultimately show ?thesis using a b by blast
qed

section \<open>The number of decoded bytes\<close>

text \<open>
  Each pair of symbols adds 13 or 14 bits to at most 7 pending ones, so that the draining
  loop writes one or two bytes for it; the last, unpaired symbol gives one byte.
\<close>

lemma drain_count:
  assumes "13 \<le> unat nb" "unat nb \<le> 21" "n \<le> length dst"
  shows "\<exists>k dst' q' nb'. 1 \<le> k \<and> k \<le> 2 \<and> length dst' = length dst \<and> unat nb' \<le> 7
      \<and> drain dst n q nb = (if n + k \<le> length dst then Some (dst', n + k, q', nb') else None)"
proof -
  let ?Q = "unat q" and ?N = "unat nb"
  have Q: "?Q < 2 ^ 64" using unsigned_less [of q, where 'a = nat] by simp
  have N: "?N < 2 ^ 64" "8 \<le> ?N" using assms by simp_all
  let ?k = "?N div 8"
  let ?dst = "if n + ?k \<le> length dst then overwrite dst n (le_bytes ?k ?Q) else dst"
  from assms have k: "1 \<le> ?k" "?k \<le> 2" by simp_all
  have len: "length ?dst = length dst" by simp
  have "?N mod 8 < 2 ^ 64" using N(1) by (rule le_less_trans [OF mod_less_eq_dividend])
  then have "unat (of_nat (?N mod 8) :: go_uint) = ?N mod 8" by (rule unat_of_nat64)
  then have nb': "unat (of_nat (?N mod 8) :: go_uint) \<le> 7" by simp
  from drain_spec [OF Q N assms(3)]
  have "drain dst n q nb = (if n + ?k \<le> length dst
      then Some (?dst, n + ?k, of_nat (?Q div 256 ^ ?k), of_nat (?N mod 8)) else None)"
    by simp
  with k len nb' show ?thesis by blast
qed

lemma uint_byte_neq_minus_1: "uint (d :: byte) \<noteq> - 1"
proof -
  have "0 \<le> uint d" by simp
  then show ?thesis by linarith
qed

lemma Decode_loop_count:
  assumes "unat nb \<le> 7" "n \<le> length dst"
    and "Decode_loop enc dst n q nb v i src = Some (dst', n', q', nb', v', e)"
  shows "n' + (if v' = -1 then 0 else 1) \<le> n + (if v = -1 then 0 else 1) + length src
    \<and> length dst' = length dst \<and> n' \<le> length dst'"
  using assms
proof (induction src arbitrary: dst n q nb v i)
  case Nil
  then show ?case by simp
next
  case (Cons c src)
  show ?case
  proof (cases "decodeMap enc c = 0xff")
    case True
    with Cons.prems show ?thesis by simp
  next
    case valid: False
    show ?thesis
    proof (cases "v = -1")
      case True
      with valid Cons.prems(3)
      have "Decode_loop enc dst n q nb (uint (decodeMap enc c)) (i + 1) src
          = Some (dst', n', q', nb', v', e)" by simp
      from Cons.IH [OF Cons.prems(1,2) this] True uint_byte_neq_minus_1 [of "decodeMap enc c"]
      show ?thesis by simp
    next
      case False
      obtain q1 nb1 where pair: "dec_pair q nb v (decodeMap enc c) = (q1, nb1)"
        by (cases "dec_pair q nb v (decodeMap enc c)") auto
      from dec_pair_numBits [OF Cons.prems(1), of q v "decodeMap enc c"] pair Cons.prems(1)
      have nb1: "13 \<le> unat nb1" "unat nb1 \<le> 21" by auto
      from drain_count [OF nb1 Cons.prems(2), of q1]
      obtain k dst2 q2 nb2 where k: "1 \<le> k" "k \<le> 2" and len2: "length dst2 = length dst"
        and nb2: "unat nb2 \<le> 7"
        and dr: "drain dst n q1 nb1 = (if n + k \<le> length dst then Some (dst2, n + k, q2, nb2) else None)"
        by blast
      show ?thesis
      proof (cases "n + k \<le> length dst")
        case room: False
        with dr valid False pair Cons.prems(3) show ?thesis by simp
      next
        case room: True
        then have n2: "n + k \<le> length dst2" by (simp add: len2)
        from dr room valid False pair Cons.prems(3)
        have "Decode_loop enc dst2 (n + k) q2 nb2 (-1) (i + 1) src
            = Some (dst', n', q', nb', v', e)"
          by simp
        from Cons.IH [OF nb2 n2 this] k len2 False show ?thesis by simp
      qed
    qed
  qed
qed

lemma Decode_loop_room:
  assumes "unat nb \<le> 7" "n + (if v = -1 then 0 else 1) + length src \<le> length dst"
  shows "Decode_loop enc dst n q nb v i src \<noteq> None"
  using assms
proof (induction src arbitrary: dst n q nb v i)
  case Nil
  then show ?case by simp
next
  case (Cons c src)
  show ?case
  proof (cases "decodeMap enc c = 0xff")
    case True
    then show ?thesis by simp
  next
    case valid: False
    show ?thesis
    proof (cases "v = -1")
      case True
      from Cons.prems(2) True uint_byte_neq_minus_1 [of "decodeMap enc c"]
      have "n + (if uint (decodeMap enc c) = -1 then 0 else 1) + length src \<le> length dst"
        by simp
      from Cons.IH [OF Cons.prems(1) this] valid True show ?thesis by simp
    next
      case False
      obtain q1 nb1 where pair: "dec_pair q nb v (decodeMap enc c) = (q1, nb1)"
        by (cases "dec_pair q nb v (decodeMap enc c)") auto
      from dec_pair_numBits [OF Cons.prems(1), of q v "decodeMap enc c"] pair Cons.prems(1)
      have nb1: "13 \<le> unat nb1" "unat nb1 \<le> 21" by auto
      from Cons.prems(2) have n: "n \<le> length dst" by simp
      from drain_count [OF nb1 n, of q1]
      obtain k dst2 q2 nb2 where k: "1 \<le> k" "k \<le> 2" and len2: "length dst2 = length dst"
        and nb2: "unat nb2 \<le> 7"
        and dr: "drain dst n q1 nb1 = (if n + k \<le> length dst then Some (dst2, n + k, q2, nb2) else None)"
        by blast
      from Cons.prems(2) False k have room: "n + k \<le> length dst" by simp
      from Cons.prems(2) False k len2
      have "(n + k) + (if (-1::int) = -1 then 0 else 1) + length src \<le> length dst2" by simp
      from Cons.IH [OF nb2 this] dr room valid False pair show ?thesis by simp
    qed
  qed
qed

lemma Decode_count:
  assumes "Decode enc dst src = Some (dst', n, e)"
  shows "n \<le> length src" and "length dst' = length dst"
proof -
  from assms obtain dst1 n1 q1 nb1 v1 e1 where
    r: "Decode_loop enc dst 0 0 0 (-1) 0 src = Some (dst1, n1, q1, nb1, v1, e1)"
    by (auto simp: Decode_def split: Option.bind_splits)
  from Decode_loop_count [OF _ _ r]
  have b: "n1 + (if v1 = -1 then 0 else 1) \<le> length src" "length dst1 = length dst" by simp_all
  from assms r b show "n \<le> length src" and "length dst' = length dst"
    by (auto simp: Decode_def put_def split: option.splits if_splits Option.bind_splits)
qed

lemma Decode_room:
  assumes "length src \<le> length dst"
  shows "Decode enc dst src \<noteq> None"
proof -
  from Decode_loop_room [of 0 0 "-1" src dst enc 0 0] assms
  obtain dst1 n1 q1 nb1 v1 e1 where
    r: "Decode_loop enc dst 0 0 0 (-1) 0 src = Some (dst1, n1, q1, nb1, v1, e1)"
    by auto
  from Decode_loop_count [OF _ _ r] assms
  have "n1 + (if v1 = -1 then 0 else 1) \<le> length dst1" by simp
  with r show ?thesis
    by (auto simp: Decode_def put_def split: option.splits if_splits)
qed

text \<open>
  C4. For every input \<open>src\<close> of \<open>n\<close> symbols, valid or not, and every encoding:
  whenever \<open>Decode\<close> returns, the number of bytes it has written is at most
  \<open>DecodedLen n\<close>; it returns, without a panic, whenever the buffer has at least
  \<open>DecodedLen n\<close> bytes, as the buffer of \<open>DecodeString\<close> has; and
  \<open>DecodedLen n\<close> is \<open>n\<close>.
\<close>

theorem Decode_length_le_DecodedLen:
  "(\<forall>dst dst' n e. Decode enc dst src = Some (dst', n, e) \<longrightarrow> n \<le> DecodedLen (length src))
   \<and> (\<forall>dst. DecodedLen (length src) \<le> length dst \<longrightarrow>
         (\<exists>dst' n e. Decode enc dst src = Some (dst', n, e) \<and> n \<le> DecodedLen (length src)))
   \<and> (\<exists>out e. DecodeString enc src = Some (out, e) \<and> length out \<le> DecodedLen (length src))
   \<and> DecodedLen (length src) = length src"
proof -
  have 1: "n \<le> DecodedLen (length src)" if "Decode enc dst src = Some (dst', n, e)"
    for dst dst' n e
    using Decode_count(1) [OF that] by (simp add: DecodedLen_def)
  have 2: "\<exists>dst' n e. Decode enc dst src = Some (dst', n, e) \<and> n \<le> DecodedLen (length src)"
    if "DecodedLen (length src) \<le> length dst" for dst
  proof -
    from that have "length src \<le> length dst" by (simp add: DecodedLen_def)
    from Decode_room [OF this, of enc] obtain dst' n e where
      "Decode enc dst src = Some (dst', n, e)" by auto
    with 1 show ?thesis by blast
  qed
  have 3: "\<exists>out e. DecodeString enc src = Some (out, e) \<and> length out \<le> DecodedLen (length src)"
  proof -
    let ?buf = "replicate (DecodedLen (length src)) 0 :: byte list"
    from 2 [of ?buf] obtain dst' n e where d: "Decode enc ?buf src = Some (dst', n, e)"
      and n: "n \<le> DecodedLen (length src)" by auto
    from d have "DecodeString enc src = Some (take n dst', e)" by (simp add: DecodeString_def)
    with n show ?thesis by simp
  qed
  have 4: "DecodedLen (length src) = length src" by (simp add: DecodedLen_def)
  from 1 2 3 4 show ?thesis by blast
qed

theorem Decode_length_le_DecodedLen_witness:
  "\<exists>enc. NewEncoding encodeStd = Inr enc
     \<and> DecodedLen (length [0x66, 0x50, 0x4E, 0x4B, 0x64 :: byte]) \<le> length (replicate 5 (0 :: byte))
     \<and> (\<exists>dst' n e. Decode enc (replicate 5 0) [0x66, 0x50, 0x4E, 0x4B, 0x64] = Some (dst', n, e)
           \<and> n \<le> DecodedLen (length [0x66, 0x50, 0x4E, 0x4B, 0x64 :: byte]))"
proof -
  from NewEncoding_encodeStd obtain enc where enc: "NewEncoding encodeStd = Inr enc" ..
  have len: "DecodedLen (length [0x66, 0x50, 0x4E, 0x4B, 0x64 :: byte]) \<le> length (replicate 5 (0 :: byte))"
    by (simp add: DecodedLen_def)
  from Decode_length_le_DecodedLen [of enc "[0x66, 0x50, 0x4E, 0x4B, 0x64]"] len
  have "\<exists>dst' n e. Decode enc (replicate 5 0) [0x66, 0x50, 0x4E, 0x4B, 0x64] = Some (dst', n, e)
           \<and> n \<le> DecodedLen (length [0x66, 0x50, 0x4E, 0x4B, 0x64 :: byte])"
    by blast
  with enc len show ?thesis by blast
qed

section \<open>A text of one symbol\<close>

lemma ucast_up_down: "(ucast (ucast (d :: byte) :: go_uint) :: byte) = d"
proof -
  have "(ucast (ucast d :: go_uint) :: byte) = ucast (of_nat (unat d) :: go_uint)"
    by (simp only: ucast_byte)
  also have "\<dots> = of_nat (unat d)" by (rule ucast_of_nat_byte)
  also have "\<dots> = d" by simp
  finally show ?thesis .
qed

lemma encode_syms_length_neq_1: "length (encode_syms enc src) \<noteq> 1"
proof -
  obtain vs Qf Nf where run: "enc_vals 0 0 src = (vs, Qf, Nf)"
    by (cases "enc_vals 0 0 src") auto
  note E = enc_vals_inv [OF enc_inv_0 run]
  from E(3) have bits: "8 * length src = widths vs + Nf" by simp
  have len: "length (encode_syms enc src) = 2 * length vs + length (flush_syms enc Qf Nf)"
    by (simp add: encode_syms_def run)
  show ?thesis
  proof (cases vs)
    case Nil
    with bits have "8 * length src = Nf" by simp
    then have "\<not> (0 < Nf \<and> Nf \<le> 7)" by arith
    then have "length (flush_syms enc Qf Nf) \<noteq> 1" by (auto simp: length_flush_syms)
    with len Nil show ?thesis by simp
  next
    case (Cons v vs')
    with len show ?thesis by simp
  qed
qed

lemma NewEncoding_member:
  assumes "NewEncoding alphabet = Inr enc" "s \<in> set (encode enc)"
  shows "decodeMap enc s \<noteq> 0xff"
proof -
  note N = NewEncoding_Inr [OF assms(1)]
  from assms(2) N obtain k where k: "k < 91" "alphabet ! k = s"
    by (auto simp: in_set_conv_nth)
  with fill_cases [of alphabet 91 s] obtain i where "i < 91" "fill alphabet 91 s = of_nat i"
    by blast
  with byte_of_nat_neq_ff [of i] N show ?thesis by simp
qed

text \<open>
  C10. For a symbol \<open>s\<close> of the alphabet of an encoding built by \<open>NewEncoding\<close>,
  \<open>Decode\<close> of the one-symbol input \<open>[s]\<close> returns with no error and writes exactly
  one byte, the code \<open>decodeMap[s]\<close> of the symbol. No output of \<open>Encode\<close> has
  length one, and \<open>Encode\<close> returns on every buffer that holds the ceiling of
  \<open>length src * 16 / 13\<close> bytes, so this input is one that no encoding produces.
\<close>

theorem Decode_single_symbol:
  assumes "NewEncoding alphabet = Inr enc" "s \<in> set (encode enc)"
  shows "decodeMap enc s \<noteq> 0xff
    \<and> DecodeString enc [s] = Some ([decodeMap enc s], None)
    \<and> (\<forall>dst. 1 \<le> length dst \<longrightarrow> Decode enc dst [s] = Some (dst[0 := decodeMap enc s], 1, None))
    \<and> (\<forall>src dst dst' n. Encode enc dst src = Some (dst', n) \<longrightarrow> n \<noteq> 1)
    \<and> (\<forall>src dst. (16 * length src + 12) div 13 \<le> length dst \<longrightarrow>
          (\<exists>dst' n. Encode enc dst src = Some (dst', n) \<and> n \<noteq> 1))"
proof -
  note wf = NewEncoding_length(2) [OF assms(1)]
  note valid = NewEncoding_member [OF assms]
  have nm1: "uint (decodeMap enc s) \<noteq> - 1" by (rule uint_byte_neq_minus_1)
  have dec: "Decode enc dst [s] = Some (dst[0 := decodeMap enc s], 1, None)"
    if "1 \<le> length dst" for dst
    using that valid nm1 by (auto simp: Decode_def put_def ucast_up_down)
  have str: "DecodeString enc [s] = Some ([decodeMap enc s], None)"
    using dec [of "replicate (DecodedLen (length [s])) 0"]
    by (simp add: DecodeString_def DecodedLen_def)
  have enc1: "n \<noteq> 1" if "Encode enc dst src = Some (dst', n)" for src dst dst' n
    using that encode_syms_length_neq_1 [of enc src]
    by (auto simp: Encode_spec [OF wf] split: if_splits)
  have enc2: "\<exists>dst' n. Encode enc dst src = Some (dst', n) \<and> n \<noteq> 1"
    if "(16 * length src + 12) div 13 \<le> length dst" for src dst
    using that encode_syms_le [of enc src] encode_syms_length_neq_1 [of enc src]
    by (simp add: Encode_spec [OF wf])
  from valid str dec enc1 enc2 show ?thesis by blast
qed

theorem Decode_single_symbol_witness:
  "\<exists>enc. NewEncoding encodeStd = Inr enc \<and> 0x42 \<in> set (encode enc)
     \<and> DecodeString enc [0x42] = Some ([1], None)"
proof -
  from NewEncoding_encodeStd obtain enc where enc: "NewEncoding encodeStd = Inr enc" ..
  note N = NewEncoding_Inr [OF enc]
  have mem: "0x42 \<in> set (encode enc)" by (simp add: N(2) encodeStd_def)
  have e1: "encode enc ! 1 = 0x42" by (simp add: N(2) encodeStd_def)
  from NewEncoding_valid_table [OF enc distinct_encodeStd]
  have "decodeMap enc (encode enc ! 1) = of_nat 1" by (simp add: valid_table_def)
  then have d: "decodeMap enc 0x42 = 1" by (simp only: e1) simp
  from Decode_single_symbol [OF enc mem] d enc mem show ?thesis by auto
qed

section \<open>Corrupt input\<close>

text \<open>
  The loop of \<open>Decode\<close> on \<open>xs @ ys\<close> is the loop on \<open>xs\<close> followed, when no error
  came up, by the loop on \<open>ys\<close> from the state reached.
\<close>

lemma Decode_loop_append:
  "Decode_loop enc dst n q nb v i (xs @ ys) =
     (case Decode_loop enc dst n q nb v i xs of
        None \<Rightarrow> None
      | Some (dst', n', q', nb', v', e) \<Rightarrow>
          (case e of
             Some err \<Rightarrow> Some (dst', n', q', nb', v', Some err)
           | None \<Rightarrow> Decode_loop enc dst' n' q' nb' v' (i + length xs) ys))"
proof (induction xs arbitrary: dst n q nb v i)
  case Nil
  show ?case by simp
next
  case (Cons c xs)
  show ?case
  proof (cases "decodeMap enc c = 0xff")
    case True
    then show ?thesis by simp
  next
    case valid: False
    show ?thesis
    proof (cases "v = -1")
      case True
      with valid Cons.IH [of dst n q nb "uint (decodeMap enc c)" "i + 1"] show ?thesis
        by (simp split: option.splits prod.splits)
    next
      case False
      obtain q1 nb1 where pair: "dec_pair q nb v (decodeMap enc c) = (q1, nb1)"
        by (cases "dec_pair q nb v (decodeMap enc c)") auto
      show ?thesis
      proof (cases "drain dst n q1 nb1")
        case None
        with valid False pair show ?thesis by simp
      next
        case (Some r)
        then obtain dst2 n2 q2 nb2 where "drain dst n q1 nb1 = Some (dst2, n2, q2, nb2)"
          by (cases r) auto
        with valid False pair Cons.IH [of dst2 n2 q2 nb2 "-1" "i + 1"] show ?thesis
          by (simp split: option.splits prod.splits)
      qed
    qed
  qed
qed

lemma Decode_loop_valid:
  assumes "\<forall>c \<in> set xs. decodeMap enc c \<noteq> 0xff"
    and "Decode_loop enc dst n q nb v i xs = Some (dst', n', q', nb', v', e)"
  shows "e = None \<and> ((v' = -1) = ((v = -1) = even (length xs)))"
  using assms
proof (induction xs arbitrary: dst n q nb v i)
  case Nil
  then show ?case by simp
next
  case (Cons c xs)
  from Cons.prems(1) have valid: "decodeMap enc c \<noteq> 0xff"
    and rest: "\<forall>c \<in> set xs. decodeMap enc c \<noteq> 0xff" by simp_all
  show ?case
  proof (cases "v = -1")
    case True
    with valid Cons.prems(2)
    have "Decode_loop enc dst n q nb (uint (decodeMap enc c)) (i + 1) xs
        = Some (dst', n', q', nb', v', e)" by simp
    from Cons.IH [OF rest this] True uint_byte_neq_minus_1 [of "decodeMap enc c"]
    show ?thesis by simp
  next
    case False
    with valid Cons.prems(2) obtain dst2 n2 q2 nb2 where
      "Decode_loop enc dst2 n2 q2 nb2 (-1) (i + 1) xs = Some (dst', n', q', nb', v', e)"
      by (auto split: prod.splits Option.bind_splits)
    from Cons.IH [OF rest this] False show ?thesis by simp
  qed
qed

lemma Decode_loop_corrupt:
  assumes "p < length src" "\<forall>i < p. decodeMap enc (src ! i) \<noteq> 0xff"
    and "decodeMap enc (src ! p) = 0xff"
  shows "Decode_loop enc dst 0 0 0 (-1) 0 src =
    (case Decode_loop enc dst 0 0 0 (-1) 0 (take p src) of
       None \<Rightarrow> None
     | Some (dst', n, q, nb, v, e) \<Rightarrow> Some (dst', n, q, nb, v, Some (CorruptInputError (int p))))"
proof -
  from assms(1) have split: "src = take p src @ (src ! p # drop (Suc p) src)"
    by (simp add: id_take_nth_drop [symmetric])
  have valid: "\<forall>c \<in> set (take p src). decodeMap enc c \<noteq> 0xff"
    using assms(1,2) by (auto simp: in_set_conv_nth)
  have len: "length (take p src) = p" using assms(1) by simp
  show ?thesis
  proof (cases "Decode_loop enc dst 0 0 0 (-1) 0 (take p src)")
    case None
    then have "Decode_loop enc dst 0 0 0 (-1) 0 (take p src @ (src ! p # drop (Suc p) src)) = None"
      by (simp only: Decode_loop_append) simp
    with split None show ?thesis by simp
  next
    case (Some r)
    then obtain dst' n q nb v e where r: "Decode_loop enc dst 0 0 0 (-1) 0 (take p src)
        = Some (dst', n, q, nb, v, e)" by (cases r) auto
    from Decode_loop_valid [OF valid r] have e: "e = None" by simp
    from r e assms(3) len
    have "Decode_loop enc dst 0 0 0 (-1) 0 (take p src @ (src ! p # drop (Suc p) src))
        = Some (dst', n, q, nb, v, Some (CorruptInputError (int p)))"
      by (simp only: Decode_loop_append) simp
    with split r show ?thesis by simp
  qed
qed

lemma Decode_corrupt_loop:
  assumes "p < length src" "\<forall>i < p. decodeMap enc (src ! i) \<noteq> 0xff"
    and "decodeMap enc (src ! p) = 0xff"
  shows "Decode enc dst src =
    (case Decode_loop enc dst 0 0 0 (-1) 0 (take p src) of
       None \<Rightarrow> None
     | Some (dst', n, q, nb, v, e) \<Rightarrow> Some (dst', n, Some (CorruptInputError (int p))))"
  by (simp add: Decode_def Decode_loop_corrupt [OF assms] split: option.splits)

lemma Decode_loop_pairs_then_rest:
  assumes "p < length src" "\<forall>i < p. decodeMap enc (src ! i) \<noteq> 0xff"
  shows "Decode_loop enc dst 0 0 0 (-1) 0 (take (2 * (p div 2)) src) = None \<and>
         Decode_loop enc dst 0 0 0 (-1) 0 (take p src) = None
    \<or> (\<exists>dst' n q nb v.
         Decode_loop enc dst 0 0 0 (-1) 0 (take (2 * (p div 2)) src) = Some (dst', n, q, nb, -1, None)
         \<and> Decode_loop enc dst 0 0 0 (-1) 0 (take p src) = Some (dst', n, q, nb, v, None))"
proof -
  let ?p' = "2 * (p div 2)"
  let ?xs = "take ?p' src"
  have p': "?p' \<le> p" by simp
  with assms(1) have len: "length ?xs = ?p'" by simp
  have valid: "\<forall>c \<in> set ?xs. decodeMap enc c \<noteq> 0xff"
    using assms p' by (auto simp: in_set_conv_nth)
  have split: "take p src = ?xs @ take (p mod 2) (drop ?p' src)"
    using take_add [of ?p' "p mod 2" src] by simp
  show ?thesis
  proof (cases "Decode_loop enc dst 0 0 0 (-1) 0 ?xs")
    case None
    then have "Decode_loop enc dst 0 0 0 (-1) 0 (?xs @ take (p mod 2) (drop ?p' src)) = None"
      by (simp only: Decode_loop_append) simp
    with None split show ?thesis by simp
  next
    case (Some r)
    then obtain dst' n q nb v e where r: "Decode_loop enc dst 0 0 0 (-1) 0 ?xs
        = Some (dst', n, q, nb, v, e)" by (cases r) auto
    from Decode_loop_valid [OF valid r] len have e: "e = None" and v: "v = -1" by simp_all
    have "\<exists>v'. Decode_loop enc dst' n q nb (-1) (0 + length ?xs) (take (p mod 2) (drop ?p' src))
        = Some (dst', n, q, nb, v', None)"
    proof (cases "p mod 2 = 0")
      case True
      then show ?thesis by simp
    next
      case False
      then have odd: "p mod 2 = 1" by simp
      then have "?p' < p" by presburger
      with assms have lt: "?p' < length src" and ok: "decodeMap enc (src ! ?p') \<noteq> 0xff"
        by simp_all
      from lt have "take 1 (drop ?p' src) = [src ! ?p']"
        by (simp add: take_Suc_conv_app_nth)
      with odd ok show ?thesis by simp
    qed
    then obtain v' where "Decode_loop enc dst' n q nb (-1) (0 + length ?xs)
        (take (p mod 2) (drop ?p' src)) = Some (dst', n, q, nb, v', None)" ..
    with r e v
    have "Decode_loop enc dst 0 0 0 (-1) 0 (?xs @ take (p mod 2) (drop ?p' src))
        = Some (dst', n, q, nb, v', None)"
      by (simp only: Decode_loop_append) simp
    with split r e v show ?thesis by simp
  qed
qed

lemma NewEncoding_nonmember:
  assumes "NewEncoding alphabet = Inr enc" "s \<notin> set (encode enc)"
  shows "decodeMap enc s = 0xff"
  using fill_outside [of s alphabet 91] NewEncoding_Inr [OF assms(1)] assms(2) by simp

lemma StdEncoding_codes:
  "decodeMap (projr StdEncoding) 0x66 = 31 \<and> decodeMap (projr StdEncoding) 0x50 = 15
   \<and> decodeMap (projr StdEncoding) 0x4E = 13 \<and> decodeMap (projr StdEncoding) 0x20 = 0xff"
proof -
  from NewEncoding_encodeStd obtain enc where enc: "NewEncoding encodeStd = Inr enc" ..
  then have std: "projr StdEncoding = enc" by (simp add: StdEncoding_def)
  note N = NewEncoding_Inr [OF enc]
  have e31: "encode enc ! 31 = 0x66" and e15: "encode enc ! 15 = 0x50"
    and e13: "encode enc ! 13 = 0x4E"
    by (simp_all add: N(2) encodeStd_def)
  note tab = NewEncoding_valid_table [OF enc distinct_encodeStd]
  from tab have "decodeMap enc (encode enc ! 31) = of_nat 31" by (simp add: valid_table_def)
  then have d66: "decodeMap enc 0x66 = 31" by (simp only: e31) simp
  from tab have "decodeMap enc (encode enc ! 15) = of_nat 15" by (simp add: valid_table_def)
  then have d50: "decodeMap enc 0x50 = 15" by (simp only: e15) simp
  from tab have "decodeMap enc (encode enc ! 13) = of_nat 13" by (simp add: valid_table_def)
  then have d4E: "decodeMap enc 0x4E = 13" by (simp only: e13) simp
  have "0x20 \<notin> set (encode enc)" by (simp add: N(2) encodeStd_def)
  with enc have d20: "decodeMap enc 0x20 = 0xff" by (rule NewEncoding_nonmember)
  from d66 d50 d4E d20 show ?thesis by (simp only: std)
qed

text \<open>
  C2, as it is worded, at an odd position. In \<open>fPN Kd\<close> the first symbol outside the
  standard alphabet is the space at position 3. \<open>Decode\<close> reports
  \<open>CorruptInputError(3)\<close> and returns the one byte \<open>0x74\<close> of the pair \<open>fP\<close>. The
  symbols at the positions \<open>[0, 3)\<close> are \<open>fPN\<close>, and decoding them gives the two bytes
  \<open>0x74, 0xA5\<close>: the second one comes from \<open>N\<close> in the flush that follows the loop,
  which the return on the corrupt symbol does not reach.
\<close>

theorem Decode_corrupt_drops_pending:
  "decodeMap (projr StdEncoding) 0x66 \<noteq> 0xff
   \<and> decodeMap (projr StdEncoding) 0x50 \<noteq> 0xff
   \<and> decodeMap (projr StdEncoding) 0x4E \<noteq> 0xff
   \<and> decodeMap (projr StdEncoding) 0x20 = 0xff
   \<and> DecodeString (projr StdEncoding) [0x66, 0x50, 0x4E, 0x20, 0x4B, 0x64]
       = Some ([0x74], Some (CorruptInputError 3))
   \<and> take 3 [0x66, 0x50, 0x4E, 0x20, 0x4B, 0x64 :: byte] = [0x66, 0x50, 0x4E]
   \<and> DecodeString (projr StdEncoding) [0x66, 0x50, 0x4E] = Some ([0x74, 0xA5], None)"
proof -
  note c = StdEncoding_codes
  have r6: "replicate 6 (0 :: byte) = [0, 0, 0, 0, 0, 0]" by (simp add: numeral_eq_Suc)
  have r3: "replicate 3 (0 :: byte) = [0, 0, 0]" by (simp add: numeral_eq_Suc)
  have 1: "DecodeString (projr StdEncoding) [0x66, 0x50, 0x4E, 0x20, 0x4B, 0x64]
      = Some ([0x74], Some (CorruptInputError 3))"
    by (simp add: DecodeString_def DecodedLen_def r6 Decode_def c dec_pair_def drain_def
        drain_while.simps put_def)
  have 2: "DecodeString (projr StdEncoding) [0x66, 0x50, 0x4E] = Some ([0x74, 0xA5], None)"
    by (simp add: DecodeString_def DecodedLen_def r3 Decode_def c dec_pair_def drain_def
        drain_while.simps put_def)
  from c 1 2 show ?thesis by simp
qed

text \<open>
  C2. Let the symbol at position \<open>p\<close> be the first one that is not in the alphabet.
  Then \<open>Decode\<close> stops there: it reports \<open>CorruptInputError(p)\<close>, and the buffer and
  the count it returns are those the loop has reached after the symbols at the
  positions \<open>[0, p)\<close>, which are those of decoding the complete pairs of symbols
  before \<open>p\<close>, that is the first \<open>2 * (p div 2)\<close> symbols, a decoding that ends
  with no error. For an even \<open>p\<close> these are the symbols at the positions \<open>[0, p)\<close>.
  When \<open>p\<close> is odd, the symbol at \<open>p - 1\<close> has no partner yet: it is pending when the
  loop stops and adds no byte, since the flush that follows the loop is not reached.
  Nothing after position \<open>p\<close> has any effect: the result is that of decoding the first
  \<open>p + 1\<close> symbols. \<open>DecodeString\<close> returns, with this error and at most \<open>p\<close> bytes.
\<close>

theorem Decode_corrupt:
  assumes "p < length src" "\<forall>i < p. decodeMap enc (src ! i) \<noteq> 0xff"
    and "decodeMap enc (src ! p) = 0xff"
  shows "(\<forall>dst. Decode enc dst src =
            (case Decode_loop enc dst 0 0 0 (-1) 0 (take p src) of
               None \<Rightarrow> None
             | Some (dst', n, q, nb, v, e) \<Rightarrow> Some (dst', n, Some (CorruptInputError (int p)))))
    \<and> (\<forall>dst. Decode enc dst src =
            map_option (\<lambda>(dst', n, e). (dst', n, Some (CorruptInputError (int p))))
              (Decode enc dst (take (2 * (p div 2)) src)))
    \<and> (\<forall>dst dst' n e. Decode enc dst (take (2 * (p div 2)) src) = Some (dst', n, e) \<longrightarrow> e = None)
    \<and> (even p \<longrightarrow>
          (\<forall>dst. Decode enc dst src =
             map_option (\<lambda>(dst', n, e). (dst', n, Some (CorruptInputError (int p))))
               (Decode enc dst (take p src))))
    \<and> (\<forall>dst. Decode enc dst src = Decode enc dst (take (Suc p) src))
    \<and> (\<exists>out. DecodeString enc src = Some (out, Some (CorruptInputError (int p)))
               \<and> length out \<le> p)"
proof -
  note a = Decode_corrupt_loop [OF assms]
  have b: "Decode enc dst src =
      map_option (\<lambda>(dst', n, e). (dst', n, Some (CorruptInputError (int p))))
        (Decode enc dst (take (2 * (p div 2)) src))"
    and c: "Decode enc dst (take (2 * (p div 2)) src) = Some (dst', n, e) \<longrightarrow> e = None"
    for dst dst' n e
    using Decode_loop_pairs_then_rest [OF assms(1,2), of dst] a [of dst]
    by (auto simp: Decode_def)
  have d: "Decode enc dst src = Decode enc dst (take (Suc p) src)" for dst
  proof -
    have 1: "p < length (take (Suc p) src)" using assms(1) by simp
    have 2: "\<forall>i < p. decodeMap enc (take (Suc p) src ! i) \<noteq> 0xff" using assms(2) by simp
    have 3: "decodeMap enc (take (Suc p) src ! p) = 0xff" using assms(3) by simp
    have "take p (take (Suc p) src) = take p src" by (simp add: min_def)
    with Decode_corrupt_loop [OF 1 2 3, of dst] a [of dst] show ?thesis by simp
  qed
  have e: "\<exists>out. DecodeString enc src = Some (out, Some (CorruptInputError (int p)))
      \<and> length out \<le> p"
  proof -
    let ?buf = "replicate (DecodedLen (length src)) 0 :: byte list"
    have "length src \<le> length ?buf" by (simp add: DecodedLen_def)
    from Decode_room [OF this, of enc] obtain dst' n err where
      dec: "Decode enc ?buf src = Some (dst', n, err)" by auto
    with a [of ?buf] obtain q nb v e' where
      loop: "Decode_loop enc ?buf 0 0 0 (-1) 0 (take p src) = Some (dst', n, q, nb, v, e')"
      and err: "err = Some (CorruptInputError (int p))"
      by (auto split: option.splits)
    from Decode_loop_count [OF _ _ loop] assms(1) have "n \<le> p \<and> n \<le> length dst'" by simp
    with dec err show ?thesis by (simp add: DecodeString_def)
  qed
  have f: "Decode enc dst src =
      map_option (\<lambda>(dst', n, e). (dst', n, Some (CorruptInputError (int p))))
        (Decode enc dst (take p src))" if "even p" for dst
  proof -
    from that have "2 * (p div 2) = p" by simp
    with b [of dst] show ?thesis by simp
  qed
  from a b c d e f show ?thesis by blast
qed

theorem Decode_corrupt_witness:
  "\<exists>enc. NewEncoding encodeStd = Inr enc
     \<and> 3 < length [0x66, 0x50, 0x4E, 0x20, 0x4B, 0x64 :: byte]
     \<and> decodeMap enc 0x66 \<noteq> 0xff \<and> decodeMap enc 0x50 \<noteq> 0xff \<and> decodeMap enc 0x4E \<noteq> 0xff
     \<and> decodeMap enc 0x20 = 0xff
     \<and> DecodeString enc [0x66, 0x50, 0x4E, 0x20, 0x4B, 0x64]
         = Some ([0x74], Some (CorruptInputError 3))
     \<and> DecodeString enc [0x66, 0x50] = Some ([0x74], None)
     \<and> 2 < length [0x66, 0x50, 0x20 :: byte] \<and> even (2 :: nat)
     \<and> take 2 [0x66, 0x50, 0x20 :: byte] = [0x66, 0x50]
     \<and> DecodeString enc [0x66, 0x50, 0x20] = Some ([0x74], Some (CorruptInputError 2))"
proof -
  from NewEncoding_encodeStd obtain enc where enc: "NewEncoding encodeStd = Inr enc" ..
  note N = NewEncoding_Inr [OF enc]
  let ?src = "[0x66, 0x50, 0x4E, 0x20, 0x4B, 0x64 :: byte]"
  let ?src2 = "[0x66, 0x50, 0x20 :: byte]"
  have len: "3 < length ?src" by simp
  have e31: "encode enc ! 31 = 0x66" and e15: "encode enc ! 15 = 0x50"
    and e13: "encode enc ! 13 = 0x4E"
    by (simp_all add: N(2) encodeStd_def)
  note tab = NewEncoding_valid_table [OF enc distinct_encodeStd]
  from tab have "decodeMap enc (encode enc ! 31) = of_nat 31" by (simp add: valid_table_def)
  then have d66: "decodeMap enc 0x66 = 31" by (simp only: e31) simp
  from tab have "decodeMap enc (encode enc ! 15) = of_nat 15" by (simp add: valid_table_def)
  then have d50: "decodeMap enc 0x50 = 15" by (simp only: e15) simp
  from tab have "decodeMap enc (encode enc ! 13) = of_nat 13" by (simp add: valid_table_def)
  then have d4E: "decodeMap enc 0x4E = 13" by (simp only: e13) simp
  have "0x20 \<notin> set (encode enc)" by (simp add: N(2) encodeStd_def)
  with enc have d20: "decodeMap enc 0x20 = 0xff" by (rule NewEncoding_nonmember)
  have valid: "\<forall>i < 3. decodeMap enc (?src ! i) \<noteq> 0xff"
    by (auto simp: less_Suc_eq numeral_3_eq_3 d66 d50 d4E)
  have bad: "decodeMap enc (?src ! 3) = 0xff" by (simp add: d20)
  have pre: "DecodeString enc [0x66, 0x50] = Some ([0x74], None)"
    by (simp add: DecodeString_def DecodedLen_def Decode_def d66 d50 dec_pair_def drain_def
        drain_while.simps put_def)
  from Decode_corrupt [OF len valid bad]
  have "Decode enc (replicate 6 0) ?src =
      map_option (\<lambda>(dst', n, e). (dst', n, Some (CorruptInputError (int 3))))
        (Decode enc (replicate 6 0) (take (2 * (3 div 2)) ?src))"
    by blast
  moreover have "take (2 * (3 div 2)) ?src = [0x66, 0x50]" by simp
  moreover have "replicate 6 (0 :: byte) = [0, 0, 0, 0, 0, 0]" by (simp add: numeral_eq_Suc)
  moreover have "Decode enc [0, 0, 0, 0, 0, 0] [0x66, 0x50]
      = Some ([0x74, 0, 0, 0, 0, 0], 1, None)"
    by (simp add: Decode_def d66 d50 dec_pair_def drain_def drain_while.simps put_def)
  ultimately have odd: "DecodeString enc ?src = Some ([0x74], Some (CorruptInputError 3))"
    by (simp add: DecodeString_def DecodedLen_def)
  have len2: "2 < length ?src2" by simp
  have valid2: "\<forall>i < 2. decodeMap enc (?src2 ! i) \<noteq> 0xff"
  proof (intro allI impI)
    fix i :: nat
    assume "i < 2"
    then have "i = 0 \<or> i = 1" by auto
    then show "decodeMap enc (?src2 ! i) \<noteq> 0xff" by (auto simp: d66 d50)
  qed
  have bad2: "decodeMap enc (?src2 ! 2) = 0xff" by (simp add: d20)
  have ev: "even (2 :: nat)" by simp
  from Decode_corrupt [OF len2 valid2 bad2] ev
  have "Decode enc (replicate 3 0) ?src2 =
      map_option (\<lambda>(dst', n, e). (dst', n, Some (CorruptInputError (int 2))))
        (Decode enc (replicate 3 0) (take 2 ?src2))"
    by blast
  moreover have tk2: "take 2 ?src2 = [0x66, 0x50]" by simp
  moreover have "replicate 3 (0 :: byte) = [0, 0, 0]" by (simp add: numeral_eq_Suc)
  moreover have "Decode enc [0, 0, 0] [0x66, 0x50] = Some ([0x74, 0, 0], 1, None)"
    by (simp add: Decode_def d66 d50 dec_pair_def drain_def drain_while.simps put_def)
  ultimately have even: "DecodeString enc ?src2 = Some ([0x74], Some (CorruptInputError 2))"
    by (simp add: DecodeString_def DecodedLen_def)
  from enc len d66 d50 d4E d20 pre odd len2 tk2 even show ?thesis by auto
qed

end
